theory Spec2Isabelle
  imports Main "HOL-Library.AList" "HOL-Library.Char_ord" "HOL-Library.List_Lexorder"
begin

section \<open>Data model\<close>

text \<open>
  The three levels of a dataset manifest, as the fields the two scripts read and write.
  A label set that is absent (\<open>None\<close>) and one that is empty (\<open>Some []\<close>) are both
  falsy for Python's \<open>not x.data_categories\<close>.
\<close>

record dataset_field =
  field_name :: string
  field_description :: string
  field_data_categories :: "string list option"

record dataset_collection =
  collection_name :: string
  collection_description :: string
  collection_data_categories :: "string list option"
  collection_fields :: "dataset_field list"

record dataset =
  dataset_fides_key :: string
  dataset_name :: string
  dataset_description :: string
  dataset_data_categories :: "string list option"
  dataset_collections :: "dataset_collection list"

text \<open>Python's truth test \<open>not cats\<close> on an optional list.\<close>

fun falsy :: "string list option \<Rightarrow> bool" where
  "falsy None = True"
| "falsy (Some cs) = (cs = [])"

text \<open>The argument \<open>dataset_member\<close>: a dataset, a collection or a field.\<close>

datatype member =
  MDataset dataset
| MCollection dataset_collection
| MField dataset_field

fun member_name :: "member \<Rightarrow> string" where
  "member_name (MDataset d) = dataset_name d"
| "member_name (MCollection c) = collection_name c"
| "member_name (MField f) = field_name f"

fun member_data_categories :: "member \<Rightarrow> string list option" where
  "member_data_categories (MDataset d) = dataset_data_categories d"
| "member_data_categories (MCollection c) = collection_data_categories c"
| "member_data_categories (MField f) = field_data_categories f"

fun is_field :: "member \<Rightarrow> bool" where
  "is_field (MField f) = True"
| "is_field m = False"

text \<open>
  The exceptions that can leave the functions: the script's own \<open>AnnotationAbortError\<close>,
  the two that the validator raises, the \<open>ValidationError\<close> of a model class that refuses
  its arguments, the \<open>UnboundLocalError\<close> of reading a local that was never bound, and
  \<open>ClickAbort\<close>, which click raises when the input stream ends.
\<close>

datatype error =
  AnnotationAbortError
| FidesValidationError
| ValueError
| ValidationError
| UnboundLocalError
| ClickAbort

section \<open>The model classes\<close>

text \<open>
  Modelled from the spec: the constructors of the model classes \<open>DatasetCollection\<close> and
  \<open>Dataset\<close> (\<open>fideslang.models\<close>, not under src/). A collection holds its fields, and a
  dataset its collections, sorted by name: \<open>list.sort\<close> on the name, which is stable and
  compares strings code point by code point. \<open>Dataset\<close> raises \<open>ValidationError\<close> for a
  \<open>fides_key\<close> that does not satisfy the key grammar.
\<close>

definition new_collection :: "dataset_collection \<Rightarrow> dataset_collection" where
  "new_collection t = t\<lparr>collection_fields := sort_key field_name (collection_fields t)\<rparr>"

definition sort_collections :: "dataset \<Rightarrow> dataset" where
  "sort_collections d =
     d\<lparr>dataset_collections := sort_key collection_name (dataset_collections d)\<rparr>"


text \<open>
  Modelled from the spec: \<open>Dataset(**dataset)\<close> on an entry of the \<open>dataset\<close> section of a
  manifest that the model classes accept. Each collection is built from its fields, then
  the dataset from its collections.
\<close>

definition parse_dataset :: "dataset \<Rightarrow> dataset" where
  "parse_dataset d =
     sort_collections (d\<lparr>dataset_collections := map new_collection (dataset_collections d)\<rparr>)"

text \<open>
  Modelled from the spec: what the model classes check of such an entry, the key grammar
  on the \<open>fides_key\<close> and on every label already present.
\<close>

definition labels_ok :: "(string \<Rightarrow> bool) \<Rightarrow> string list option \<Rightarrow> bool" where
  "labels_ok key_ok cats = (case cats of None \<Rightarrow> True | Some cs \<Rightarrow> list_all key_ok cs)"

definition accepted_collection :: "(string \<Rightarrow> bool) \<Rightarrow> dataset_collection \<Rightarrow> bool" where
  "accepted_collection key_ok t =
     (labels_ok key_ok (collection_data_categories t)
      \<and> list_all (\<lambda>f. labels_ok key_ok (field_data_categories f)) (collection_fields t))"

definition accepted_dataset :: "(string \<Rightarrow> bool) \<Rightarrow> dataset \<Rightarrow> bool" where
  "accepted_dataset key_ok d =
     (key_ok (dataset_fides_key d)
      \<and> labels_ok key_ok (dataset_data_categories d)
      \<and> list_all (accepted_collection key_ok) (dataset_collections d))"

text \<open>
  Modelled from the spec: the key grammar of \<open>FidesKey\<close> (\<open>fideslang.validation\<close>, not
  under src/), a match of \<open>^[a-zA-Z0-9_.-]+$\<close>: letters, digits, underscore, dot and
  hyphen, at least one, and after them at most one newline. The theorems below take the
  grammar as the parameter \<open>key_ok\<close>; this one serves at concrete inputs.
\<close>

definition fides_key_char :: "char \<Rightarrow> bool" where
  "fides_key_char c =
     (c \<in> set ''abcdefghijklmnopqrstuvwxyzABCDEFGHIJKLMNOPQRSTUVWXYZ0123456789_.-'')"

definition fides_key_syntax :: "string \<Rightarrow> bool" where
  "fides_key_syntax k =
     (let body = (if k \<noteq> [] \<and> last k = CHR 0x0A then butlast k else k)
      in body \<noteq> [] \<and> list_all fides_key_char body)"

section \<open>The category validator\<close>

text \<open>
  \<open>FidesKey.validate\<close> belongs to the model library; its grammar is the parameter
  \<open>key_ok\<close>. The loop raises at the first category that fails either check.
\<close>

fun validate_data_categories ::
  "(string \<Rightarrow> bool) \<Rightarrow> string list \<Rightarrow> string list \<Rightarrow> error + unit" where
  "validate_data_categories key_ok [] valid_categories = Inr ()"
| "validate_data_categories key_ok (category # categories) valid_categories =
     (if \<not> key_ok category then Inl FidesValidationError
      else if category \<notin> set valid_categories then Inl ValueError
      else validate_data_categories key_ok categories valid_categories)"

section \<open>The operator and the console\<close>

text \<open>
  What the scripts show and what they write. \<open>Prompt m\<close> is a call of \<open>click.prompt\<close>
  with the message naming member \<open>m\<close>, \<open>ConfirmQuit\<close> a call of \<open>click.confirm\<close>;
  the others are the \<open>click.secho\<close> lines.
\<close>

datatype event =
  EchoVisualizer string
| AnnotatingDataset string
| NoCategoriesDatabase string
| AnnotatingTable string
| NoCategoriesTable string
| NoCategoriesField string string
| SettingCategories string string "string list"
| NotValid "string list"
| Prompt member
| ConfirmQuit

text \<open>
  The world outside the script: the values \<open>click.prompt\<close> will return (it asks again
  on an empty line, so these are the operator's lines that are not empty), the answers to
  \<open>click.confirm\<close>, what has been shown so far, and the dataset lists handed
  to \<open>write_manifest\<close>, oldest first.
\<close>

record world =
  answers :: "string list"
  confirms :: "bool list"
  shown :: "event list"
  written :: "dataset list list"

definition echo :: "event \<Rightarrow> world \<Rightarrow> world" where
  "echo e w = w\<lparr>shown := shown w @ [e]\<rparr>"

section \<open>Parsing a response\<close>

text \<open>
  \<open>str.split(",")\<close> and \<open>str.strip()\<close>. A character stands for a code point below 256;
  \<open>is_space\<close> lists those for which \<open>str.isspace\<close> holds.
\<close>

fun split_on :: "char \<Rightarrow> string \<Rightarrow> string list" where
  "split_on sep [] = [[]]"
| "split_on sep (c # cs) =
     (if c = sep then [] # split_on sep cs
      else (case split_on sep cs of
              [] \<Rightarrow> [[c]]
            | tok # toks \<Rightarrow> (c # tok) # toks))"

definition is_space :: "char \<Rightarrow> bool" where
  "is_space c = ((of_char c :: nat) \<in> {9, 10, 11, 12, 13, 28, 29, 30, 31, 32, 133, 160})"

definition strip :: "string \<Rightarrow> string" where
  "strip s = rev (dropWhile is_space (rev (dropWhile is_space s)))"

definition parse_response :: "string \<Rightarrow> string list" where
  "parse_response r = map strip (split_on CHR '','' r)"

section \<open>The prompt loop\<close>

text \<open>
  One call reads one line. Both recursive calls leave \<open>validate\<close> out, so they run with
  its default, \<open>True\<close>. The list of answers shrinks with every call, which is why the
  recursion ends; when it is used up, click raises.
\<close>

function get_data_categories_annotation ::
  "(string \<Rightarrow> bool) \<Rightarrow> member \<Rightarrow> string list \<Rightarrow> bool \<Rightarrow> world
     \<Rightarrow> (error + string list) \<times> world" where
  "get_data_categories_annotation key_ok dataset_member valid_categories validate w =
     (case answers w of
        [] \<Rightarrow> (Inl ClickAbort, echo (Prompt dataset_member) w)
      | r # rest \<Rightarrow>
          (let w1 = echo (Prompt dataset_member) (w\<lparr>answers := rest\<rparr>);
               user_response = parse_response r
           in if user_response = [''s''] then (Inr [], w1)
              else if user_response = [''q''] then
                (case confirms w1 of
                   [] \<Rightarrow> (Inl ClickAbort, echo ConfirmQuit w1)
                 | yes # others \<Rightarrow>
                     (let w2 = echo ConfirmQuit (w1\<lparr>confirms := others\<rparr>)
                      in if yes then (Inl AnnotationAbortError, w2)
                         else get_data_categories_annotation
                                key_ok dataset_member valid_categories True w2))
              else if validate then
                (case validate_data_categories key_ok user_response valid_categories of
                   Inl e \<Rightarrow>
                     get_data_categories_annotation
                       key_ok dataset_member valid_categories True
                       (echo (NotValid user_response) w1)
                 | Inr u \<Rightarrow> (Inr user_response, w1))
              else (Inr user_response, w1)))"
  by pat_completeness auto
termination
  by (relation "measure (\<lambda>(key_ok, m, valid, validate, w). length (answers w))")
     (auto simp: echo_def)

declare get_data_categories_annotation.simps [simp del]

section \<open>The annotation walk\<close>

text \<open>
  \<open>try: ... except AnnotationAbortError: break\<close> around one prompt: \<open>Inr None\<close> is the
  \<open>break\<close>, \<open>Inr (Some cs)\<close> the labels returned; any other exception goes on up.
\<close>

definition try_annotation ::
  "(string \<Rightarrow> bool) \<Rightarrow> string list \<Rightarrow> bool \<Rightarrow> member \<Rightarrow> world
     \<Rightarrow> (error + string list option) \<times> world" where
  "try_annotation key_ok existing_categories validate m w =
     (case get_data_categories_annotation key_ok m existing_categories validate w of
        (Inr user_categories, w1) \<Rightarrow> (Inr (Some user_categories), w1)
      | (Inl e, w1) \<Rightarrow>
          if e = AnnotationAbortError then (Inr None, w1) else (Inl e, w1))"

text \<open>
  A \<open>for\<close> loop over a list of objects that the body may change in place and may leave
  with \<open>break\<close> (the body's flag). After a \<open>break\<close> the remaining objects are as they were.
\<close>

fun for_each ::
  "('a \<Rightarrow> world \<Rightarrow> (error + bool \<times> 'a) \<times> world) \<Rightarrow> 'a list \<Rightarrow> world
     \<Rightarrow> (error + 'a list) \<times> world" where
  "for_each body [] w = (Inr [], w)"
| "for_each body (x # xs) w =
     (case body x w of
        (Inl e, w1) \<Rightarrow> (Inl e, w1)
      | (Inr (brk, x1), w1) \<Rightarrow>
          if brk then (Inr (x1 # xs), w1)
          else (case for_each body xs w1 of
                  (Inl e, w2) \<Rightarrow> (Inl e, w2)
                | (Inr xs1, w2) \<Rightarrow> (Inr (x1 # xs1), w2)))"

text \<open>The body of \<open>for field in table.fields\<close>.\<close>

definition annotate_field ::
  "(string \<Rightarrow> bool) \<Rightarrow> string list \<Rightarrow> bool \<Rightarrow> string \<Rightarrow> dataset_field \<Rightarrow> world
     \<Rightarrow> (error + bool \<times> dataset_field) \<times> world" where
  "annotate_field key_ok existing_categories validate table_name field w =
     (if falsy (field_data_categories field) then
        (case try_annotation key_ok existing_categories validate (MField field)
                (echo (NoCategoriesField table_name (field_name field)) w) of
           (Inl e, w1) \<Rightarrow> (Inl e, w1)
         | (Inr None, w1) \<Rightarrow> (Inr (True, field), w1)
         | (Inr (Some user_categories), w1) \<Rightarrow>
             (Inr (False, field\<lparr>field_data_categories := Some user_categories\<rparr>),
              echo (SettingCategories table_name (field_name field) user_categories) w1))
      else (Inr (False, field), w))"

definition walk_fields ::
  "(string \<Rightarrow> bool) \<Rightarrow> string list \<Rightarrow> bool \<Rightarrow> dataset_collection \<Rightarrow> world
     \<Rightarrow> (error + bool \<times> dataset_collection) \<times> world" where
  "walk_fields key_ok existing_categories validate table w =
     (case for_each (annotate_field key_ok existing_categories validate (collection_name table))
             (collection_fields table) w of
        (Inl e, w1) \<Rightarrow> (Inl e, w1)
      | (Inr new_fields, w1) \<Rightarrow>
          (Inr (False, table\<lparr>collection_fields := new_fields\<rparr>), w1))"

text \<open>The body of \<open>for table in current_dataset.collections\<close>.\<close>

definition annotate_table ::
  "(string \<Rightarrow> bool) \<Rightarrow> string list \<Rightarrow> bool \<Rightarrow> bool \<Rightarrow> dataset_collection \<Rightarrow> world
     \<Rightarrow> (error + bool \<times> dataset_collection) \<times> world" where
  "annotate_table key_ok existing_categories validate annotate_all table w =
     (let w0 = echo (AnnotatingTable (collection_name table)) w
      in if annotate_all \<and> falsy (collection_data_categories table) then
           (case try_annotation key_ok existing_categories validate (MCollection table)
                   (echo (NoCategoriesTable (collection_name table)) w0) of
              (Inl e, w1) \<Rightarrow> (Inl e, w1)
            | (Inr None, w1) \<Rightarrow> (Inr (True, table), w1)
            | (Inr (Some user_categories), w1) \<Rightarrow>
                walk_fields key_ok existing_categories validate
                  (table\<lparr>collection_data_categories := Some user_categories\<rparr>) w1)
         else walk_fields key_ok existing_categories validate table w0)"

definition walk_tables ::
  "(string \<Rightarrow> bool) \<Rightarrow> string list \<Rightarrow> bool \<Rightarrow> bool \<Rightarrow> dataset \<Rightarrow> world
     \<Rightarrow> (error + bool \<times> dataset) \<times> world" where
  "walk_tables key_ok existing_categories validate annotate_all current_dataset w =
     (case for_each (annotate_table key_ok existing_categories validate annotate_all)
             (dataset_collections current_dataset) w of
        (Inl e, w1) \<Rightarrow> (Inl e, w1)
      | (Inr new_tables, w1) \<Rightarrow>
          (Inr (False, current_dataset\<lparr>dataset_collections := new_tables\<rparr>), w1))"

text \<open>
  The body of \<open>for dataset in datasets\<close>. Only the \<open>break\<close> after the dataset's own
  prompt leaves this loop; the two inner ones leave the loop they stand in.
\<close>

definition annotate_current_dataset ::
  "(string \<Rightarrow> bool) \<Rightarrow> string list \<Rightarrow> bool \<Rightarrow> bool \<Rightarrow> dataset \<Rightarrow> world
     \<Rightarrow> (error + bool \<times> dataset) \<times> world" where
  "annotate_current_dataset key_ok existing_categories validate annotate_all current_dataset w =
     (let w0 = echo (AnnotatingDataset (dataset_name current_dataset)) w
      in if annotate_all \<and> falsy (dataset_data_categories current_dataset) then
           (case try_annotation key_ok existing_categories validate (MDataset current_dataset)
                   (echo (NoCategoriesDatabase (dataset_name current_dataset)) w0) of
              (Inl e, w1) \<Rightarrow> (Inl e, w1)
            | (Inr None, w1) \<Rightarrow> (Inr (True, current_dataset), w1)
            | (Inr (Some user_categories), w1) \<Rightarrow>
                walk_tables key_ok existing_categories validate annotate_all
                  (current_dataset\<lparr>dataset_data_categories := Some user_categories\<rparr>) w1)
         else walk_tables key_ok existing_categories validate annotate_all current_dataset w0)"

text \<open>
  The outer loop keeps the local \<open>current_dataset\<close> (unbound at first) and reports
  whether it ended in \<open>break\<close>: the \<open>else\<close> of a \<open>for\<close> runs only when it did not.
  Each pass starts with \<open>current_dataset = Dataset(**dataset)\<close>; the datasets are those of
  a manifest that the model classes accept.
\<close>

fun walk_datasets ::
  "(string \<Rightarrow> bool) \<Rightarrow> string list \<Rightarrow> bool \<Rightarrow> bool \<Rightarrow> dataset option \<Rightarrow> dataset list
     \<Rightarrow> world \<Rightarrow> (error + bool \<times> dataset option) \<times> world" where
  "walk_datasets key_ok existing_categories validate annotate_all current [] w =
     (Inr (False, current), w)"
| "walk_datasets key_ok existing_categories validate annotate_all current (d # ds) w =
     (case annotate_current_dataset key_ok existing_categories validate annotate_all
             (parse_dataset d) w of
        (Inl e, w1) \<Rightarrow> (Inl e, w1)
      | (Inr (brk, d1), w1) \<Rightarrow>
          if brk then (Inr (True, Some d1), w1)
          else walk_datasets key_ok existing_categories validate annotate_all (Some d1) ds w1)"

definition write_manifest :: "dataset list \<Rightarrow> world \<Rightarrow> world" where
  "write_manifest output_dataset w = w\<lparr>written := written w @ [output_dataset]\<rparr>"

text \<open>
  \<open>annotate_dataset\<close>, from the parsed \<open>dataset\<close> section of the manifest and the keys
  the resource listing returned. \<open>output_dataset\<close> is \<open>[]\<close> unless the \<open>else\<close> runs.
\<close>

definition annotate_dataset ::
  "(string \<Rightarrow> bool) \<Rightarrow> string list \<Rightarrow> dataset list \<Rightarrow> string \<Rightarrow> bool \<Rightarrow> bool \<Rightarrow> world
     \<Rightarrow> (error + unit) \<times> world" where
  "annotate_dataset key_ok existing_categories datasets resource_type annotate_all validate w =
     (case walk_datasets key_ok existing_categories validate annotate_all None datasets
             (echo (EchoVisualizer resource_type) w) of
        (Inl e, w1) \<Rightarrow> (Inl e, w1)
      | (Inr (brk, current), w1) \<Rightarrow>
          if brk then (Inr (), write_manifest [] w1)
          else (case current of
                  None \<Rightarrow> (Inl UnboundLocalError, w1)
                | Some current_dataset \<Rightarrow> (Inr (), write_manifest [current_dataset] w1)))"

section \<open>Generating a dataset manifest\<close>

text \<open>
  What the script asks of the database engine and its inspector: the dialect's name, the
  schema names, the table names of a schema, and the column names of a table in a schema.
\<close>

record engine =
  dialect_name :: string
  get_schema_names :: "string list"
  get_table_names :: "string \<Rightarrow> string list"
  get_columns :: "string \<Rightarrow> string \<Rightarrow> string list"

text \<open>
  A Python dict is the list of its items in insertion order; \<open>d[k] = v\<close> is
  \<open>AList.update k v d\<close>, which replaces the value of a key in place and appends a new key.
\<close>

type_synonym ('k, 'v) dict = "('k \<times> 'v) list"

definition excluded_schemas :: "engine \<Rightarrow> string list" where
  "excluded_schemas e =
     [''information_schema''] @
     (if dialect_name e = ''mysql'' then [''mysql'', ''performance_schema'', ''sys''] else [])"

text \<open>
  The inner loop fills \<open>db_tables[schema]\<close>, which the line before set to \<open>{}\<close>;
  the dict it fills is built here first and then stored under \<open>schema\<close>.
\<close>

definition schema_tables :: "engine \<Rightarrow> string \<Rightarrow> (string, string list) dict" where
  "schema_tables e schema =
     fold (\<lambda>table inner. AList.update (schema @ ''.'' @ table) (get_columns e table schema) inner)
       (get_table_names e schema) []"

definition get_db_collections_and_fields ::
  "engine \<Rightarrow> (string, (string, string list) dict) dict" where
  "get_db_collections_and_fields e =
     (let schemas = filter (\<lambda>schema. schema \<notin> set (excluded_schemas e)) (get_schema_names e)
      in fold (\<lambda>schema db_tables. AList.update schema (schema_tables e schema) db_tables)
           schemas [])"



section \<open>Fixtures\<close>

definition operator :: "string list \<Rightarrow> bool list \<Rightarrow> world" where
  "operator lines yes_no = \<lparr>answers = lines, confirms = yes_no, shown = [], written = []\<rparr>"

definition unlabelled_field :: "string \<Rightarrow> dataset_field" where
  "unlabelled_field n =
     \<lparr>field_name = n, field_description = ''a column'', field_data_categories = Some []\<rparr>"

definition unlabelled_collection :: "string \<Rightarrow> dataset_field list \<Rightarrow> dataset_collection" where
  "unlabelled_collection n fs =
     \<lparr>collection_name = n, collection_description = ''a table'',
      collection_data_categories = None, collection_fields = fs\<rparr>"

definition unlabelled_dataset :: "string \<Rightarrow> dataset_collection list \<Rightarrow> dataset" where
  "unlabelled_dataset n cs =
     \<lparr>dataset_fides_key = n, dataset_name = n, dataset_description = ''a schema'',
      dataset_data_categories = None, dataset_collections = cs\<rparr>"

text \<open>Two datasets, two collections, three fields, no labels anywhere.\<close>

definition two_datasets :: "dataset list" where
  "two_datasets =
     [unlabelled_dataset ''shop''
        [unlabelled_collection ''shop.users'' [unlabelled_field ''id'', unlabelled_field ''email'']],
      unlabelled_dataset ''audit''
        [unlabelled_collection ''audit.log'' [unlabelled_field ''actor'']]]"

definition mysql_engine :: engine where
  "mysql_engine =
     \<lparr>dialect_name = ''mysql'',
      get_schema_names = [''information_schema'', ''mysql'', ''shop'', ''performance_schema'', ''sys''],
      get_table_names = (\<lambda>schema. if schema = ''shop'' then [''users''] else [''t'']),
      get_columns = (\<lambda>table schema. [''id'', ''email''])\<rparr>"

text \<open>The events in which the operator is asked something.\<close>

fun is_interaction :: "event \<Rightarrow> bool" where
  "is_interaction (Prompt m) = True"
| "is_interaction ConfirmQuit = True"
| "is_interaction e = False"

section \<open>What annotation may change\<close>

text \<open>The events shown between world \<open>w\<close> and a later world \<open>w'\<close>.\<close>

definition since :: "world \<Rightarrow> world \<Rightarrow> event list" where
  "since w w' = drop (length (shown w)) (shown w')"

text \<open>
  \<open>fills_field f f'\<close>: \<open>f'\<close> is \<open>f\<close> except perhaps for its labels, and the labels differ only
  if \<open>f\<close> had none. For a collection and a dataset the labels differ only if, moreover,
  annotate-all is on; their children are related in the same way, one to one and in order.
\<close>

definition fills_field :: "dataset_field \<Rightarrow> dataset_field \<Rightarrow> bool" where
  "fills_field f f' =
     (f' = f\<lparr>field_data_categories := field_data_categories f'\<rparr>
      \<and> (falsy (field_data_categories f)
           \<or> field_data_categories f' = field_data_categories f))"

definition fills_collection :: "bool \<Rightarrow> dataset_collection \<Rightarrow> dataset_collection \<Rightarrow> bool" where
  "fills_collection annotate_all t t' =
     (t' = t\<lparr>collection_data_categories := collection_data_categories t',
             collection_fields := collection_fields t'\<rparr>
      \<and> (annotate_all \<and> falsy (collection_data_categories t)
           \<or> collection_data_categories t' = collection_data_categories t)
      \<and> list_all2 fills_field (collection_fields t) (collection_fields t'))"

definition fills_dataset :: "bool \<Rightarrow> dataset \<Rightarrow> dataset \<Rightarrow> bool" where
  "fills_dataset annotate_all d d' =
     (d' = d\<lparr>dataset_data_categories := dataset_data_categories d',
             dataset_collections := dataset_collections d'\<rparr>
      \<and> (annotate_all \<and> falsy (dataset_data_categories d)
           \<or> dataset_data_categories d' = dataset_data_categories d)
      \<and> list_all2 (fills_collection annotate_all) (dataset_collections d) (dataset_collections d'))"

text \<open>The entities of a dataset, as the members that can be passed to the prompt loop.\<close>

definition collection_members :: "dataset_collection \<Rightarrow> member list" where
  "collection_members t = MCollection t # map MField (collection_fields t)"

definition dataset_members :: "dataset \<Rightarrow> member list" where
  "dataset_members d = MDataset d # concat (map collection_members (dataset_collections d))"

text \<open>
  An entity is due for a prompt when it has no labels and is a field or annotate-all is on.
\<close>

definition due :: "bool \<Rightarrow> member \<Rightarrow> bool" where
  "due annotate_all m = (falsy (member_data_categories m) \<and> (annotate_all \<or> is_field m))"

text \<open>
  \<open>advances Q w w'\<close>: world \<open>w'\<close> is world \<open>w\<close> with more events shown, every prompt among
  them for a member that satisfies \<open>Q\<close>, no confirmation added and nothing written.
\<close>

definition advances :: "(member \<Rightarrow> bool) \<Rightarrow> world \<Rightarrow> world \<Rightarrow> bool" where
  "advances Q w w' =
     (shown w' = shown w @ since w w'
      \<and> (\<forall>m. Prompt m \<in> set (since w w') \<longrightarrow> Q m)
      \<and> set (confirms w') \<subseteq> set (confirms w)
      \<and> written w' = written w)"

text \<open>A manifest in which the dataset and one field carry labels already.\<close>

definition partly_labelled :: "dataset list" where
  "partly_labelled =
     [\<lparr>dataset_fides_key = ''shop'', dataset_name = ''shop'', dataset_description = ''a schema'',
       dataset_data_categories = Some [''system''],
       dataset_collections =
         [\<lparr>collection_name = ''shop.users'', collection_description = ''a table'',
           collection_data_categories = None,
           collection_fields =
             [\<lparr>field_name = ''id'', field_description = ''a column'',
               field_data_categories = Some [''user.id'']\<rparr>,
              unlabelled_field ''email'']\<rparr>]\<rparr>]"

section \<open>Properties of the validator\<close>

lemmas walk_defs = annotate_dataset_def parse_dataset_def sort_collections_def
  new_collection_def sort_key_def annotate_current_dataset_def walk_tables_def
  annotate_table_def walk_fields_def annotate_field_def try_annotation_def
  get_data_categories_annotation.simps echo_def write_manifest_def parse_response_def
  strip_def is_space_def

lemmas fixture_defs = two_datasets_def operator_def unlabelled_dataset_def
  unlabelled_collection_def unlabelled_field_def

lemma validate_data_categories_Inr:
  "(validate_data_categories key_ok cs valid = Inr ()) =
   (\<forall>c \<in> set cs. key_ok c \<and> c \<in> set valid)"
  by (induction cs) auto

text \<open>
  C4. The validator returns without raising exactly when every category satisfies the key
  grammar and is in the list of valid categories; one category that fails either check
  makes the whole call raise.
\<close>

theorem validate_data_categories_iff:
  "(validate_data_categories key_ok categories valid_categories = Inr ()) =
   (\<forall>category \<in> set categories. key_ok category \<and> category \<in> set valid_categories)"
  by (rule validate_data_categories_Inr)

theorem validate_data_categories_iff_witness:
  "validate_data_categories (\<lambda>k. k \<noteq> []) [''user'', ''account''] [''account'', ''user''] = Inr ()
   \<and> validate_data_categories (\<lambda>k. k \<noteq> []) [''user'', ''other''] [''account'', ''user''] \<noteq> Inr ()
   \<and> validate_data_categories (\<lambda>k. k \<noteq> []) [''user'', []] [''account'', ''user'', []] \<noteq> Inr ()"
  using validate_data_categories_iff [of "\<lambda>k. k \<noteq> []" "[''user'', ''account'']" "[''account'', ''user'']"]
    validate_data_categories_iff [of "\<lambda>k. k \<noteq> []" "[''user'', ''other'']" "[''account'', ''user'']"]
    validate_data_categories_iff [of "\<lambda>k. k \<noteq> []" "[''user'', []]" "[''account'', ''user'', []]"]
  by simp

section \<open>Runs of the annotator\<close>

text \<open>
  C10. With no dataset in the manifest the loop body never runs, the \<open>else\<close> of the loop
  reads \<open>current_dataset\<close>, which was never bound, and the function raises before
  \<open>write_manifest\<close> is reached: nothing is written.
\<close>

theorem annotate_dataset_no_datasets:
  "annotate_dataset key_ok existing_categories [] resource_type annotate_all validate w =
     (Inl UnboundLocalError, echo (EchoVisualizer resource_type) w)
   \<and> written (snd (annotate_dataset key_ok existing_categories [] resource_type
                     annotate_all validate w)) = written w"
  by (simp add: annotate_dataset_def echo_def)

text \<open>
  C1. The run of the claim: two datasets without labels, annotate-all on, and the operator
  answers each of the seven prompts with the valid label \<open>user\<close>. The function returns
  and writes one manifest, and that manifest holds the second dataset only: the first one,
  annotated in the same way, is not in the list handed to \<open>write_manifest\<close>.
\<close>

theorem annotate_all_writes_last_dataset_only:
  "key_ok ''user'' \<Longrightarrow>
   fst (annotate_dataset key_ok [''user''] two_datasets ''data_category'' True validate
          (operator (replicate 7 ''user'') [])) = Inr () \<and>
   written (snd (annotate_dataset key_ok [''user''] two_datasets ''data_category'' True validate
          (operator (replicate 7 ''user'') []))) =
     [[\<lparr>dataset_fides_key = ''audit'', dataset_name = ''audit'',
        dataset_description = ''a schema'', dataset_data_categories = Some [''user''],
        dataset_collections =
          [\<lparr>collection_name = ''audit.log'', collection_description = ''a table'',
            collection_data_categories = Some [''user''],
            collection_fields =
              [\<lparr>field_name = ''actor'', field_description = ''a column'',
                field_data_categories = Some [''user'']\<rparr>]\<rparr>]\<rparr>]]"
  by (cases validate) (simp_all add: walk_defs fixture_defs numeral_eq_Suc)

theorem annotate_all_writes_last_dataset_only_witness:
  "fst (annotate_dataset (\<lambda>k. k \<noteq> []) [''user''] two_datasets ''data_category'' True True
          (operator (replicate 7 ''user'') [])) = Inr () \<and>
   map (map dataset_name)
     (written (snd (annotate_dataset (\<lambda>k. k \<noteq> []) [''user''] two_datasets ''data_category''
                      True True (operator (replicate 7 ''user'') [])))) = [[''audit'']]"
  using annotate_all_writes_last_dataset_only [of "\<lambda>k. k \<noteq> []" True]
  by simp

text \<open>
  C2. The same manifest, annotate-all on; the operator labels the first dataset, its
  collection and its two fields, then answers \<open>q\<close> at the prompt for the second dataset and
  confirms. The function returns and writes once, and what it writes is the empty list:
  the four labels collected before the abort are not in the manifest, and neither is any
  dataset.
\<close>

theorem abort_at_second_dataset_writes_nothing:
  "key_ok ''user'' \<Longrightarrow>
   fst (annotate_dataset key_ok [''user''] two_datasets ''data_category'' True validate
          (operator [''user'', ''user'', ''user'', ''user'', ''q''] [True])) = Inr () \<and>
   written (snd (annotate_dataset key_ok [''user''] two_datasets ''data_category'' True validate
          (operator [''user'', ''user'', ''user'', ''user'', ''q''] [True]))) = [[]]"
  by (cases validate) (simp_all add: walk_defs fixture_defs)

theorem abort_at_second_dataset_writes_nothing_witness:
  "written (snd (annotate_dataset (\<lambda>k. k \<noteq> []) [''user''] two_datasets ''data_category'' True
                   True (operator [''user'', ''user'', ''user'', ''user'', ''q''] [True]))) = [[]]"
  using abort_at_second_dataset_writes_nothing [of "\<lambda>k. k \<noteq> []" True]
  by simp

text \<open>
  C3. Annotate-all off; the operator answers \<open>q\<close> at the first prompt, which is for the
  field \<open>email\<close> of the first dataset (its fields are held sorted by name), and confirms,
  which raises the abort inside the field loop. The \<open>break\<close> leaves that loop only: the
  other field of the collection is skipped, but the walk goes on to the next dataset and
  prompts for its field.
\<close>

theorem abort_in_field_loop_goes_on:
  "filter is_interaction
     (shown (snd (annotate_dataset key_ok [''user''] two_datasets ''data_category'' False validate
                    (operator [''q'', ''s''] [True])))) =
   [Prompt (MField (unlabelled_field ''email'')), ConfirmQuit,
    Prompt (MField (unlabelled_field ''actor''))]"
  by (simp add: walk_defs fixture_defs)

section \<open>Runs of the prompt loop\<close>

text \<open>
  C5. Called with \<open>validate = False\<close>; the operator answers \<open>q\<close>, declines to quit, and
  then gives \<open>User Name\<close>, which is not a valid category. The retry after the declined quit
  runs with validation on: the answer is validated and refused, the operator is prompted a
  third time, and the list \<open>[User Name]\<close> is never returned.
\<close>

theorem declined_quit_turns_validation_on:
  "get_data_categories_annotation key_ok m [''user''] False
     (operator [''q'', ''User Name'', ''s''] [False]) =
   (Inr [], \<lparr>answers = [], confirms = [],
             shown = [Prompt m, ConfirmQuit, Prompt m, NotValid [''User Name''], Prompt m],
             written = []\<rparr>)"
  by (simp add: walk_defs fixture_defs)

lemma comma_not_space: "\<not> is_space CHR '',''"
  by (simp add: is_space_def)

lemma in_set_strip: "c \<in> set r \<Longrightarrow> is_space c \<or> c \<in> set (strip r)"
proof -
  assume c: "c \<in> set r"
  let ?r1 = "dropWhile is_space r"
  have "r = takeWhile is_space r @ ?r1" by simp
  then have "c \<in> set (takeWhile is_space r) \<or> c \<in> set ?r1"
    using c by (metis Un_iff set_append)
  moreover have "c \<in> set (takeWhile is_space r) \<Longrightarrow> is_space c"
    by (rule set_takeWhileD [THEN conjunct2])
  moreover have "c \<in> set ?r1 \<Longrightarrow> is_space c \<or> c \<in> set (strip r)"
  proof -
    assume "c \<in> set ?r1"
    then have "c \<in> set (rev ?r1)" by simp
    then have "c \<in> set (takeWhile is_space (rev ?r1)) \<or> c \<in> set (dropWhile is_space (rev ?r1))"
      by (metis Un_iff set_append takeWhile_dropWhile_id)
    then show ?thesis
      by (auto simp: strip_def dest: set_takeWhileD)
  qed
  ultimately show ?thesis by blast
qed

lemma split_on_no_sep: "sep \<notin> set r \<Longrightarrow> split_on sep r = [r]"
  by (induction r) auto

lemma parse_response_single:
  assumes "CHR '','' \<notin> set (strip r)"
  shows "parse_response r = [strip r]"
proof -
  have "CHR '','' \<notin> set r"
    using assms in_set_strip [of "CHR '',''" r] comma_not_space by blast
  then show ?thesis
    by (simp add: parse_response_def split_on_no_sep)
qed

text \<open>
  C6. A response whose trimmed content is exactly \<open>s\<close> returns the empty list at once,
  whatever \<open>validate\<close> is; a response whose trimmed content is exactly \<open>q\<close>, with the
  quit confirmed, raises \<open>AnnotationAbortError\<close> and returns no value.
\<close>

theorem skip_and_confirmed_quit:
  "(strip r = ''s'' \<longrightarrow>
      get_data_categories_annotation key_ok m valid_categories validate
        (w\<lparr>answers := r # rest\<rparr>) =
      (Inr [], echo (Prompt m) (w\<lparr>answers := rest\<rparr>)))
   \<and> (strip r = ''q'' \<longrightarrow>
      get_data_categories_annotation key_ok m valid_categories validate
        (w\<lparr>answers := r # rest, confirms := True # cs\<rparr>) =
      (Inl AnnotationAbortError,
       echo ConfirmQuit (echo (Prompt m) (w\<lparr>answers := rest, confirms := cs\<rparr>))))"
proof (intro conjI impI)
  assume s: "strip r = ''s''"
  then have "parse_response r = [''s'']"
    using parse_response_single [of r] by simp
  then show "get_data_categories_annotation key_ok m valid_categories validate
        (w\<lparr>answers := r # rest\<rparr>) =
      (Inr [], echo (Prompt m) (w\<lparr>answers := rest\<rparr>))"
    by (simp add: get_data_categories_annotation.simps [of _ _ _ _ "w\<lparr>answers := r # rest\<rparr>"])
next
  assume q: "strip r = ''q''"
  then have "parse_response r = [''q'']"
    using parse_response_single [of r] by simp
  then show "get_data_categories_annotation key_ok m valid_categories validate
        (w\<lparr>answers := r # rest, confirms := True # cs\<rparr>) =
      (Inl AnnotationAbortError,
       echo ConfirmQuit (echo (Prompt m) (w\<lparr>answers := rest, confirms := cs\<rparr>)))"
    by (simp add: get_data_categories_annotation.simps
          [of _ _ _ _ "w\<lparr>answers := r # rest, confirms := True # cs\<rparr>"] echo_def)
qed

theorem skip_and_confirmed_quit_witness:
  "get_data_categories_annotation (\<lambda>k. k \<noteq> []) (MField (unlabelled_field ''id'')) [''user''] True
     (operator ['' s  '', ''user''] []) =
   (Inr [], \<lparr>answers = [''user''], confirms = [],
             shown = [Prompt (MField (unlabelled_field ''id''))], written = []\<rparr>)
   \<and> get_data_categories_annotation (\<lambda>k. k \<noteq> []) (MField (unlabelled_field ''id'')) [''user''] False
     (operator [''q '', ''user''] [True, False]) =
   (Inl AnnotationAbortError,
    \<lparr>answers = [''user''], confirms = [False],
      shown = [Prompt (MField (unlabelled_field ''id'')), ConfirmQuit], written = []\<rparr>)"
  using skip_and_confirmed_quit [where r = "'' s  ''" and key_ok = "\<lambda>k. k \<noteq> []"
      and m = "MField (unlabelled_field ''id'')" and valid_categories = "[''user'']"
      and validate = True and w = "operator [] []" and rest = "[''user'']" and cs = "[]"]
    skip_and_confirmed_quit [where r = "''q ''" and key_ok = "\<lambda>k. k \<noteq> []"
      and m = "MField (unlabelled_field ''id'')" and valid_categories = "[''user'']"
      and validate = False and w = "operator [] []" and rest = "[''user'']" and cs = "[False]"]
  by (simp add: operator_def echo_def strip_def is_space_def)

section \<open>Properties of the generator\<close>

lemma set_update_cases:
  "(k, v) \<in> set (AList.update k' v' al) \<Longrightarrow> (k, v) = (k', v') \<or> (k, v) \<in> set al"
  by (induction al) (auto split: if_splits)

lemma fold_update_keys:
  "fst ` set (fold (\<lambda>x acc. AList.update (g x) (h x) acc) xs acc) = g ` set xs \<union> fst ` set acc"
  by (induction xs arbitrary: acc) (auto simp: dom_update)

lemma fold_update_entries:
  "(k, v) \<in> set (fold (\<lambda>x acc. AList.update (g x) (h x) acc) xs acc) \<Longrightarrow>
   (k, v) \<in> set acc \<or> (\<exists>x \<in> set xs. k = g x \<and> v = h x)"
proof (induction xs arbitrary: acc)
  case Nil
  then show ?case by simp
next
  case (Cons x xs)
  from Cons.IH [of "AList.update (g x) (h x) acc"] Cons.prems
  have "(k, v) \<in> set (AList.update (g x) (h x) acc) \<or> (\<exists>y \<in> set xs. k = g y \<and> v = h y)"
    by simp
  then show ?case
    using set_update_cases [of k v "g x" "h x" acc] by auto
qed

lemma schema_tables_keys:
  "fst ` set (schema_tables e schema) = (\<lambda>table. schema @ ''.'' @ table) ` set (get_table_names e schema)"
  unfolding schema_tables_def by (simp add: fold_update_keys)

lemma db_keys:
  "fst ` set (get_db_collections_and_fields e) =
   {schema \<in> set (get_schema_names e). schema \<notin> set (excluded_schemas e)}"
  unfolding get_db_collections_and_fields_def Let_def
  by (simp add: fold_update_keys [where g = "\<lambda>s. s"])

lemma db_entries:
  "(schema, tables) \<in> set (get_db_collections_and_fields e) \<Longrightarrow> tables = schema_tables e schema"
  unfolding get_db_collections_and_fields_def Let_def
  using fold_update_entries [where g = "\<lambda>s. s" and h = "schema_tables e" and acc = "[]"]
  by fastforce

lemma db_inner_keys:
  assumes entry: "(schema, tables) \<in> set (get_db_collections_and_fields e)"
    and kv: "(key, v) \<in> set tables"
  shows "\<exists>table \<in> set (get_table_names e schema). key = schema @ ''.'' @ table"
proof -
  from entry have "tables = schema_tables e schema" by (rule db_entries)
  then have "key \<in> fst ` set (schema_tables e schema)" using kv by force
  then show ?thesis
    unfolding schema_tables_keys by blast
qed

text \<open>
  C8. Whatever the engine reports, \<open>information_schema\<close> is not a key of the mapping
  returned, and for the mysql dialect neither are \<open>mysql\<close>, \<open>performance_schema\<close> and
  \<open>sys\<close>; every key of an inner mapping is \<open>schema.table\<close> for a table of that schema.
\<close>

theorem system_schemas_excluded:
  "''information_schema'' \<notin> fst ` set (get_db_collections_and_fields e)
   \<and> (dialect_name e = ''mysql'' \<longrightarrow>
        ''mysql'' \<notin> fst ` set (get_db_collections_and_fields e)
        \<and> ''performance_schema'' \<notin> fst ` set (get_db_collections_and_fields e)
        \<and> ''sys'' \<notin> fst ` set (get_db_collections_and_fields e))
   \<and> (\<forall>(schema, tables) \<in> set (get_db_collections_and_fields e).
        \<forall>key \<in> fst ` set tables.
          \<exists>table \<in> set (get_table_names e schema). key = schema @ ''.'' @ table)"
proof (intro conjI impI)
  show "''information_schema'' \<notin> fst ` set (get_db_collections_and_fields e)"
    by (simp add: db_keys excluded_schemas_def)
next
  assume "dialect_name e = ''mysql''"
  then show "''mysql'' \<notin> fst ` set (get_db_collections_and_fields e)"
    and "''performance_schema'' \<notin> fst ` set (get_db_collections_and_fields e)"
    and "''sys'' \<notin> fst ` set (get_db_collections_and_fields e)"
    by (simp_all add: db_keys excluded_schemas_def)
next
  show "\<forall>(schema, tables) \<in> set (get_db_collections_and_fields e).
        \<forall>key \<in> fst ` set tables.
          \<exists>table \<in> set (get_table_names e schema). key = schema @ ''.'' @ table"
    using db_inner_keys [of _ _ e] by fastforce
qed

theorem system_schemas_excluded_witness:
  "get_db_collections_and_fields mysql_engine = [(''shop'', [(''shop.users'', [''id'', ''email''])])]
   \<and> ''information_schema'' \<notin> fst ` set (get_db_collections_and_fields mysql_engine)
   \<and> ''mysql'' \<notin> fst ` set (get_db_collections_and_fields mysql_engine)
   \<and> ''performance_schema'' \<notin> fst ` set (get_db_collections_and_fields mysql_engine)
   \<and> ''sys'' \<notin> fst ` set (get_db_collections_and_fields mysql_engine)"
proof -
  have v: "get_db_collections_and_fields mysql_engine = [(''shop'', [(''shop.users'', [''id'', ''email''])])]"
    by (simp add: get_db_collections_and_fields_def mysql_engine_def excluded_schemas_def
        schema_tables_def)
  have m: "dialect_name mysql_engine = ''mysql''"
    by (simp add: mysql_engine_def)
  show ?thesis
    using system_schemas_excluded [of mysql_engine] m v by simp
qed





section \<open>Annotation fills empty label sets only\<close>

lemma get_data_categories_annotation_cases:
  assumes "get_data_categories_annotation key_ok m valid validate w = (r, w')"
  shows "(answers w = [] \<and> r = Inl ClickAbort \<and> w' = echo (Prompt m) w)
    \<or> (\<exists>a rest. answers w = a # rest \<and>
          (let w1 = echo (Prompt m) (w\<lparr>answers := rest\<rparr>) in
             (w' = w1 \<and> (r = Inr [] \<or> r = Inr (parse_response a)))
           \<or> (confirms w = [] \<and> r = Inl ClickAbort \<and> w' = echo ConfirmQuit w1)
           \<or> (\<exists>cs. confirms w = True # cs \<and> r = Inl AnnotationAbortError
                  \<and> w' = echo ConfirmQuit (w1\<lparr>confirms := cs\<rparr>))
           \<or> (\<exists>cs. confirms w = False # cs
                  \<and> get_data_categories_annotation key_ok m valid True
                       (echo ConfirmQuit (w1\<lparr>confirms := cs\<rparr>)) = (r, w'))
           \<or> get_data_categories_annotation key_ok m valid True
                 (echo (NotValid (parse_response a)) w1) = (r, w')))"
proof (cases "answers w")
  case Nil
  with assms show ?thesis
    by (simp add: get_data_categories_annotation.simps [of _ _ _ _ w])
next
  case (Cons a rest)
  have c: "confirms (echo (Prompt m) (w\<lparr>answers := rest\<rparr>)) = confirms w"
    by (simp add: echo_def)
  from assms Cons show ?thesis
    by (simp add: get_data_categories_annotation.simps [of _ _ _ _ w] Let_def c
        split: if_splits list.splits sum.splits)
qed


lemma get_data_categories_annotation_facts:
  "get_data_categories_annotation key_ok m valid validate w = (r, w') \<Longrightarrow>
   (\<exists>new. shown w' = shown w @ Prompt m # new \<and> (\<forall>m'. Prompt m' \<in> set new \<longrightarrow> m' = m))
   \<and> set (confirms w') \<subseteq> set (confirms w)
   \<and> (r = Inl AnnotationAbortError \<longrightarrow> True \<in> set (confirms w))"
proof (induction "answers w" arbitrary: w validate)
  case Nil
  then show ?case
    using get_data_categories_annotation_cases [OF Nil.prems]
    by (auto simp: echo_def)
next
  case (Cons a rest)
  let ?w1 = "echo (Prompt m) (w\<lparr>answers := rest\<rparr>)"
  have aw: "answers w = a # rest" using Cons.hyps(2) by simp
  have IH: "\<And>u v. rest = answers u \<Longrightarrow>
      get_data_categories_annotation key_ok m valid v u = (r, w') \<Longrightarrow>
      (\<exists>new. shown w' = shown u @ Prompt m # new \<and> (\<forall>m'. Prompt m' \<in> set new \<longrightarrow> m' = m))
      \<and> set (confirms w') \<subseteq> set (confirms u)
      \<and> (r = Inl AnnotationAbortError \<longrightarrow> True \<in> set (confirms u))"
    by (rule Cons.hyps(1))
  from get_data_categories_annotation_cases [OF Cons.prems] aw
  consider
    (ret) "w' = ?w1" "r = Inr [] \<or> r = Inr (parse_response a)"
  | (eof) "confirms w = []" "r = Inl ClickAbort" "w' = echo ConfirmQuit ?w1"
  | (quit) cs where "confirms w = True # cs" "r = Inl AnnotationAbortError"
      "w' = echo ConfirmQuit (?w1\<lparr>confirms := cs\<rparr>)"
  | (decline) cs where "confirms w = False # cs"
      "get_data_categories_annotation key_ok m valid True
         (echo ConfirmQuit (?w1\<lparr>confirms := cs\<rparr>)) = (r, w')"
  | (invalid) "get_data_categories_annotation key_ok m valid True
         (echo (NotValid (parse_response a)) ?w1) = (r, w')"
    by (auto simp: Let_def)
  then show ?case
  proof cases
    case ret
    then show ?thesis by (auto simp: echo_def)
  next
    case eof
    then show ?thesis by (auto simp: echo_def)
  next
    case quit
    then show ?thesis by (auto simp: echo_def)
  next
    case decline
    let ?u = "echo ConfirmQuit (?w1\<lparr>confirms := cs\<rparr>)"
    have "rest = answers ?u" by (simp add: echo_def)
    from IH [OF this decline(2)]
    obtain new where n: "shown w' = shown ?u @ Prompt m # new"
        "\<forall>m'. Prompt m' \<in> set new \<longrightarrow> m' = m"
      and c: "set (confirms w') \<subseteq> set (confirms ?u)"
      and q: "r = Inl AnnotationAbortError \<longrightarrow> True \<in> set (confirms ?u)"
      by blast
    have "shown w' = shown w @ Prompt m # (ConfirmQuit # Prompt m # new)"
      using n(1) by (simp add: echo_def)
    moreover have "\<forall>m'. Prompt m' \<in> set (ConfirmQuit # Prompt m # new) \<longrightarrow> m' = m"
      using n(2) by simp
    moreover have "set (confirms w') \<subseteq> set (confirms w)"
      using c decline(1) by (auto simp: echo_def)
    moreover have "r = Inl AnnotationAbortError \<longrightarrow> True \<in> set (confirms w)"
      using q decline(1) by (auto simp: echo_def)
    ultimately show ?thesis by blast
  next
    case invalid
    let ?u = "echo (NotValid (parse_response a)) ?w1"
    have "rest = answers ?u" by (simp add: echo_def)
    from IH [OF this invalid]
    obtain new where n: "shown w' = shown ?u @ Prompt m # new"
        "\<forall>m'. Prompt m' \<in> set new \<longrightarrow> m' = m"
      and c: "set (confirms w') \<subseteq> set (confirms ?u)"
      and q: "r = Inl AnnotationAbortError \<longrightarrow> True \<in> set (confirms ?u)"
      by blast
    have "shown w' = shown w @ Prompt m # (NotValid (parse_response a) # Prompt m # new)"
      using n(1) by (simp add: echo_def)
    moreover have "\<forall>m'. Prompt m' \<in> set (NotValid (parse_response a) # Prompt m # new) \<longrightarrow> m' = m"
      using n(2) by simp
    moreover have "set (confirms w') \<subseteq> set (confirms w)"
      using c by (auto simp: echo_def)
    moreover have "r = Inl AnnotationAbortError \<longrightarrow> True \<in> set (confirms w)"
      using q by (auto simp: echo_def)
    ultimately show ?thesis by blast
  qed
qed


lemma advancesI:
  "shown w' = shown w @ new \<Longrightarrow> (\<And>m. Prompt m \<in> set new \<Longrightarrow> Q m) \<Longrightarrow>
   set (confirms w') \<subseteq> set (confirms w) \<Longrightarrow> written w' = written w \<Longrightarrow> advances Q w w'"
  by (simp add: advances_def since_def)

lemma advances_refl: "advances Q w w"
  by (simp add: advances_def since_def)

lemma advances_echo: "(\<And>m. e = Prompt m \<Longrightarrow> Q m) \<Longrightarrow> advances Q w (echo e w)"
  by (rule advancesI [where new = "[e]"]) (auto simp: echo_def)

lemma since_append: "shown w' = shown w @ new \<Longrightarrow> since w w' = new"
  by (simp add: since_def)

lemma since_trans:
  assumes "advances Q1 w w1" and "advances Q2 w1 w2"
  shows "since w w2 = since w w1 @ since w1 w2"
proof (rule since_append)
  show "shown w2 = shown w @ (since w w1 @ since w1 w2)"
    using assms by (simp add: advances_def)
qed

lemma advances_trans:
  assumes "advances Q1 w w1" and "advances Q2 w1 w2"
    and "\<And>m. Q1 m \<Longrightarrow> Q m" and "\<And>m. Q2 m \<Longrightarrow> Q m"
  shows "advances Q w w2"
proof (rule advancesI)
  show "shown w2 = shown w @ (since w w1 @ since w1 w2)"
    using assms(1,2) by (simp add: advances_def)
next
  fix m assume "Prompt m \<in> set (since w w1 @ since w1 w2)"
  then show "Q m"
    using assms by (auto simp: advances_def)
next
  show "set (confirms w2) \<subseteq> set (confirms w)"
    using assms(1,2) by (auto simp: advances_def)
next
  show "written w2 = written w"
    using assms(1,2) by (simp add: advances_def)
qed

lemma advances_mono:
  "advances Q1 w w' \<Longrightarrow> (\<And>m. Q1 m \<Longrightarrow> Q m) \<Longrightarrow> advances Q w w'"
  by (simp add: advances_def)

lemma advances_no_quit:
  "advances Q w w' \<Longrightarrow> True \<notin> set (confirms w) \<Longrightarrow> True \<notin> set (confirms w')"
  by (auto simp: advances_def)

lemma since_first:
  "advances Q1 w w1 \<Longrightarrow> advances Q2 w1 w2 \<Longrightarrow> e \<in> set (since w w1) \<Longrightarrow> e \<in> set (since w w2)"
  by (simp add: since_trans)

lemma since_second:
  "advances Q1 w w1 \<Longrightarrow> advances Q2 w1 w2 \<Longrightarrow> e \<in> set (since w1 w2) \<Longrightarrow> e \<in> set (since w w2)"
  by (simp add: since_trans)

lemma written_echo: "written (echo e w) = written w"
  by (simp add: echo_def)

lemma get_data_categories_annotation_advances:
  assumes "get_data_categories_annotation key_ok m valid validate w = (r, w')"
  shows "advances (\<lambda>m'. m' = m) w w'" and "Prompt m \<in> set (since w w')"
proof -
  from get_data_categories_annotation_facts [OF assms]
  obtain new where n: "shown w' = shown w @ Prompt m # new"
      "\<forall>m'. Prompt m' \<in> set new \<longrightarrow> m' = m"
    and c: "set (confirms w') \<subseteq> set (confirms w)"
    by blast
  have wr: "written w' = written w"
    using assms
  proof (induction "answers w" arbitrary: w validate)
    case Nil
    then show ?case
      using get_data_categories_annotation_cases [OF Nil.prems] by (auto simp: echo_def)
  next
    case (Cons a rest)
    have aw: "answers w = a # rest" using Cons.hyps(2) by simp
    show ?case
      using get_data_categories_annotation_cases [OF Cons.prems] aw
        Cons.hyps(1) [of "echo ConfirmQuit (echo (Prompt m) (w\<lparr>answers := rest\<rparr>)\<lparr>confirms := cs\<rparr>)" True for cs]
        Cons.hyps(1) [of "echo (NotValid (parse_response a)) (echo (Prompt m) (w\<lparr>answers := rest\<rparr>))" True]
      by (auto simp: echo_def Let_def)
  qed
  show "advances (\<lambda>m'. m' = m) w w'"
    by (rule advancesI [OF n(1) _ c wr]) (use n(2) in auto)
  show "Prompt m \<in> set (since w w')"
    using n(1) by (simp add: since_def)
qed

lemma try_annotation_advances:
  assumes "try_annotation key_ok valid validate m w = (r, w')"
  shows "advances (\<lambda>m'. m' = m) w w'" and "Prompt m \<in> set (since w w')"
    and "r = Inr None \<Longrightarrow> True \<in> set (confirms w)"
proof -
  obtain r0 where g: "get_data_categories_annotation key_ok m valid validate w = (r0, w')"
    and r: "r = (case r0 of Inr cs \<Rightarrow> Inr (Some cs)
                  | Inl e \<Rightarrow> if e = AnnotationAbortError then Inr None else Inl e)"
    using assms by (auto simp: try_annotation_def split: prod.splits sum.splits if_splits)
  show "advances (\<lambda>m'. m' = m) w w'" and "Prompt m \<in> set (since w w')"
    using get_data_categories_annotation_advances [OF g] by simp_all
  show "r = Inr None \<Longrightarrow> True \<in> set (confirms w)"
    using get_data_categories_annotation_facts [OF g] r
    by (auto split: sum.splits if_splits)
qed


text \<open>The body of the field loop.\<close>

lemma annotate_field_cases:
  assumes "annotate_field key_ok valid validate tn f w = (r, w')"
  shows "(\<not> falsy (field_data_categories f) \<and> r = Inr (False, f) \<and> w' = w)
    \<or> (falsy (field_data_categories f) \<and>
        (\<exists>r1 w1. try_annotation key_ok valid validate (MField f)
             (echo (NoCategoriesField tn (field_name f)) w) = (r1, w1) \<and>
           ((\<exists>e. r1 = Inl e \<and> r = Inl e \<and> w' = w1)
            \<or> (r1 = Inr None \<and> r = Inr (True, f) \<and> w' = w1)
            \<or> (\<exists>cs. r1 = Inr (Some cs) \<and> r = Inr (False, f\<lparr>field_data_categories := Some cs\<rparr>)
                  \<and> w' = echo (SettingCategories tn (field_name f) cs) w1))))"
  using assms
  by (auto simp: annotate_field_def split: if_splits prod.splits sum.splits option.splits)

lemma annotate_field_advances:
  assumes "annotate_field key_ok valid validate tn f w = (r, w')"
  shows "advances (\<lambda>m. m = MField f \<and> falsy (field_data_categories f)) w w'"
proof (cases "falsy (field_data_categories f)")
  case False
  then show ?thesis
    using annotate_field_cases [OF assms] by (auto simp: advances_refl)
next
  case True
  let ?Q = "\<lambda>m. m = MField f \<and> falsy (field_data_categories f)"
  let ?w0 = "echo (NoCategoriesField tn (field_name f)) w"
  from annotate_field_cases [OF assms] True
  obtain r1 w1 where t: "try_annotation key_ok valid validate (MField f) ?w0 = (r1, w1)"
    and w': "w' = w1 \<or> (\<exists>cs. w' = echo (SettingCategories tn (field_name f) cs) w1)"
    by blast
  have a0: "advances ?Q w ?w0" by (rule advances_echo) simp
  have a1: "advances ?Q ?w0 w1"
    by (rule advances_mono [OF try_annotation_advances(1) [OF t]]) (simp add: True)
  have a2: "advances ?Q w w1"
    using a0 a1 by (rule advances_trans)
  show ?thesis
  proof (cases "w' = w1")
    case True
    then show ?thesis using a2 by simp
  next
    case False
    then obtain cs where "w' = echo (SettingCategories tn (field_name f) cs) w1"
      using w' by blast
    then obtain cs0 where w2: "w' = echo (SettingCategories tn (field_name f) cs0) w1"
      by blast
    have e: "advances ?Q w1 w'"
      unfolding w2 by (rule advances_echo) simp
    show ?thesis
      using a2 e by (rule advances_trans)
  qed
qed

lemma annotate_field_fills:
  assumes "annotate_field key_ok valid validate tn f w = (Inr (b, f'), w')"
  shows "fills_field f f'"
  using annotate_field_cases [OF assms] by (auto simp: fills_field_def)

lemma annotate_field_asks:
  assumes "annotate_field key_ok valid validate tn f w = (Inr (b, f'), w')"
    and nq: "True \<notin> set (confirms w)"
  shows "\<not> b" and "falsy (field_data_categories f) \<Longrightarrow> Prompt (MField f) \<in> set (since w w')"
proof -
  let ?w0 = "echo (NoCategoriesField tn (field_name f)) w"
  have nq0: "True \<notin> set (confirms ?w0)" using nq by (simp add: echo_def)
  show "\<not> b"
    using annotate_field_cases [OF assms(1)] try_annotation_advances(3) nq0 by fastforce
  assume e: "falsy (field_data_categories f)"
  from annotate_field_cases [OF assms(1)] e
  obtain r1 w1 where t: "try_annotation key_ok valid validate (MField f) ?w0 = (r1, w1)"
    and w': "w' = w1 \<or> (\<exists>cs. w' = echo (SettingCategories tn (field_name f) cs) w1)"
    by blast
  have a0: "advances (\<lambda>m. True) w ?w0" by (rule advances_echo) simp
  have a1: "advances (\<lambda>m. True) ?w0 w1"
    using try_annotation_advances(1) [OF t] by (rule advances_mono) simp
  have p1: "Prompt (MField f) \<in> set (since w w1)"
    using since_second [OF a0 a1] try_annotation_advances(2) [OF t] by blast
  have a01: "advances (\<lambda>m. True) w w1"
    using a0 a1 by (rule advances_trans)
  show "Prompt (MField f) \<in> set (since w w')"
  proof (cases "w' = w1")
    case True
    then show ?thesis using p1 by simp
  next
    case False
    then obtain cs where w2: "w' = echo (SettingCategories tn (field_name f) cs) w1"
      using w' by blast
    have "advances (\<lambda>m. True) w1 w'"
      unfolding w2 by (rule advances_echo) simp
    then show ?thesis
      using since_first [OF a01 _ p1] by blast
  qed
qed

text \<open>The loop, whatever its body.\<close>

lemma for_each_advances:
  assumes "\<And>x u r u'. x \<in> set xs \<Longrightarrow> body x u = (r, u') \<Longrightarrow> advances (Q x) u u'"
    and "for_each body xs w = (r, w')"
  shows "advances (\<lambda>m. \<exists>x \<in> set xs. Q x m) w w'"
  using assms
proof (induction xs arbitrary: w r w')
  case Nil
  then show ?case by (simp add: advances_refl)
next
  case (Cons x xs)
  obtain r1 w1 where b: "body x w = (r1, w1)" by (cases "body x w")
  have a1: "advances (Q x) w w1"
    using Cons.prems(1) [OF _ b] by simp
  have a1': "advances (\<lambda>m. \<exists>y \<in> set (x # xs). Q y m) w w1"
    using a1 by (rule advances_mono) auto
  have IH: "\<And>r2 w2. for_each body xs w1 = (r2, w2) \<Longrightarrow>
      advances (\<lambda>m. \<exists>y \<in> set (x # xs). Q y m) w w2"
  proof -
    fix r2 w2 assume f: "for_each body xs w1 = (r2, w2)"
    have "advances (\<lambda>m. \<exists>y \<in> set xs. Q y m) w1 w2"
      by (rule Cons.IH [OF _ f]) (use Cons.prems(1) in auto)
    with a1 show "advances (\<lambda>m. \<exists>y \<in> set (x # xs). Q y m) w w2"
      by (rule advances_trans) auto
  qed
  obtain r2 w2 where f: "for_each body xs w1 = (r2, w2)" by (cases "for_each body xs w1")
  from Cons.prems(2) b f have "w' = w1 \<or> w' = w2"
    by (auto split: sum.splits prod.splits if_splits)
  then show ?case
    using a1' IH [OF f] by auto
qed

lemma for_each_rel:
  assumes "\<And>x u b x' u'. x \<in> set xs \<Longrightarrow> body x u = (Inr (b, x'), u') \<Longrightarrow> R x x'"
    and "\<And>x. x \<in> set xs \<Longrightarrow> R x x"
    and "for_each body xs w = (Inr xs', w')"
  shows "list_all2 R xs xs'"
  using assms
proof (induction xs arbitrary: w xs' w')
  case Nil
  then show ?case by simp
next
  case (Cons x xs)
  obtain r1 w1 where b: "body x w = (r1, w1)" by (cases "body x w")
  from Cons.prems(3) b obtain brk x1 where r1: "r1 = Inr (brk, x1)"
    by (cases r1) (auto split: prod.splits)
  have Rx: "R x x1" using Cons.prems(1) [of x w brk x1 w1] b r1 by simp
  have refl: "list_all2 R xs xs"
    using Cons.prems(2) by (simp add: list_all2_same)
  show ?case
  proof (cases brk)
    case True
    with Cons.prems(3) b r1 have "xs' = x1 # xs" by simp
    then show ?thesis using Rx refl by simp
  next
    case False
    with Cons.prems(3) b r1 obtain xs1 w2 where f: "for_each body xs w1 = (Inr xs1, w2)"
      and xs': "xs' = x1 # xs1"
      by (auto split: sum.splits prod.splits)
    have "list_all2 R xs xs1"
      by (rule Cons.IH [OF _ _ f]) (use Cons.prems(1,2) in auto)
    then show ?thesis using Rx xs' by simp
  qed
qed

lemma for_each_asks:
  assumes adv: "\<And>x u r u'. x \<in> set xs \<Longrightarrow> body x u = (r, u') \<Longrightarrow> advances (\<lambda>m. True) u u'"
    and asks: "\<And>x u b x' u' m. x \<in> set xs \<Longrightarrow> body x u = (Inr (b, x'), u') \<Longrightarrow>
        True \<notin> set (confirms u) \<Longrightarrow> \<not> b \<and> (Q x m \<longrightarrow> Prompt m \<in> set (since u u'))"
    and run: "for_each body xs w = (Inr xs', w')"
    and nq: "True \<notin> set (confirms w)"
  shows "\<forall>x \<in> set xs. \<forall>m. Q x m \<longrightarrow> Prompt m \<in> set (since w w')"
  using assms
proof (induction xs arbitrary: w xs' w')
  case Nil
  then show ?case by simp
next
  case (Cons x xs)
  obtain r1 w1 where b: "body x w = (r1, w1)" by (cases "body x w")
  from Cons.prems(3) b obtain brk x1 where r1: "r1 = Inr (brk, x1)"
    by (cases r1) (auto split: prod.splits)
  have a1: "advances (\<lambda>m. True) w w1"
    using Cons.prems(1) [OF _ b] by simp
  have nb: "\<not> brk" and q1: "\<And>m. Q x m \<Longrightarrow> Prompt m \<in> set (since w w1)"
    using Cons.prems(2) [of x w brk x1 w1] b r1 Cons.prems(4) by auto
  from nb Cons.prems(3) b r1 obtain xs1 where f: "for_each body xs w1 = (Inr xs1, w')"
    by (auto split: sum.splits prod.splits)
  have "advances (\<lambda>m. \<exists>y \<in> set xs. True) w1 w'"
    by (rule for_each_advances [where Q = "\<lambda>x m. True", OF _ f]) (use Cons.prems(1) in auto)
  then have a2: "advances (\<lambda>m. True) w1 w'"
    by (rule advances_mono) simp
  have nq1: "True \<notin> set (confirms w1)"
    using advances_no_quit [OF a1 Cons.prems(4)] .
  have adv': "\<And>y u r u'. y \<in> set xs \<Longrightarrow> body y u = (r, u') \<Longrightarrow> advances (\<lambda>m. True) u u'"
    using Cons.prems(1) by (meson list.set_intros(2))
  have asks': "\<And>y u b x' u' m. y \<in> set xs \<Longrightarrow> body y u = (Inr (b, x'), u') \<Longrightarrow>
      True \<notin> set (confirms u) \<Longrightarrow> \<not> b \<and> (Q y m \<longrightarrow> Prompt m \<in> set (since u u'))"
    using Cons.prems(2) by (meson list.set_intros(2))
  have IH: "\<forall>y \<in> set xs. \<forall>m. Q y m \<longrightarrow> Prompt m \<in> set (since w1 w')"
    using adv' asks' f nq1 by (rule Cons.IH)
  show ?case
  proof (intro ballI allI impI)
    fix y m assume y: "y \<in> set (x # xs)" and q: "Q y m"
    show "Prompt m \<in> set (since w w')"
    proof (cases "y = x")
      case True
      then have "Prompt m \<in> set (since w w1)" using q1 q by simp
      then show ?thesis by (rule since_first [OF a1 a2])
    next
      case False
      then have "y \<in> set xs" using y by simp
      then have "Prompt m \<in> set (since w1 w')" using IH q by blast
      then show ?thesis by (rule since_second [OF a1 a2])
    qed
  qed
qed


text \<open>The field loop of a collection.\<close>

lemma walk_fields_cases:
  assumes "walk_fields key_ok valid validate t w = (r, w')"
  shows "\<exists>r1. for_each (annotate_field key_ok valid validate (collection_name t))
                 (collection_fields t) w = (r1, w')
          \<and> ((\<exists>e. r1 = Inl e \<and> r = Inl e)
               \<or> (\<exists>fs. r1 = Inr fs \<and> r = Inr (False, t\<lparr>collection_fields := fs\<rparr>)))"
  using assms by (auto simp: walk_fields_def split: prod.splits sum.splits)

lemma walk_fields_advances:
  assumes "walk_fields key_ok valid validate t w = (r, w')"
  shows "advances (\<lambda>m. m \<in> MField ` set (collection_fields t) \<and> due annotate_all m) w w'"
proof -
  from walk_fields_cases [OF assms] obtain r1 where
    f: "for_each (annotate_field key_ok valid validate (collection_name t))
          (collection_fields t) w = (r1, w')"
    by blast
  have "advances (\<lambda>m. \<exists>f \<in> set (collection_fields t).
                    m = MField f \<and> falsy (field_data_categories f)) w w'"
    using annotate_field_advances f by (rule for_each_advances)
  then show ?thesis
    by (rule advances_mono) (auto simp: due_def)
qed

lemma walk_fields_fills:
  assumes "walk_fields key_ok valid validate t w = (Inr (b, t'), w')"
  shows "\<not> b" and "t' = t\<lparr>collection_fields := collection_fields t'\<rparr>"
    and "list_all2 fills_field (collection_fields t) (collection_fields t')"
proof -
  from walk_fields_cases [OF assms] obtain fs where
    f: "for_each (annotate_field key_ok valid validate (collection_name t))
          (collection_fields t) w = (Inr fs, w')"
    and t': "b = False" "t' = t\<lparr>collection_fields := fs\<rparr>"
    by auto
  show "\<not> b" using t' by simp
  show "t' = t\<lparr>collection_fields := collection_fields t'\<rparr>" using t' by simp
  have "list_all2 fills_field (collection_fields t) fs"
  proof (rule for_each_rel [OF _ _ f])
    show "\<And>x u b x' u'. annotate_field key_ok valid validate (collection_name t) x u
             = (Inr (b, x'), u') \<Longrightarrow> fills_field x x'"
      by (rule annotate_field_fills)
    show "\<And>x. fills_field x x" by (simp add: fills_field_def)
  qed
  then show "list_all2 fills_field (collection_fields t) (collection_fields t')"
    using t' by simp
qed

lemma walk_fields_asks:
  assumes run: "walk_fields key_ok valid validate t w = (Inr (b, t'), w')"
    and nq: "True \<notin> set (confirms w)"
    and m: "m \<in> MField ` set (collection_fields t)" "due annotate_all m"
  shows "Prompt m \<in> set (since w w')"
proof -
  from walk_fields_cases [OF run] obtain fs where
    f: "for_each (annotate_field key_ok valid validate (collection_name t))
          (collection_fields t) w = (Inr fs, w')"
    by auto
  have adv: "\<And>x u r u'. annotate_field key_ok valid validate (collection_name t) x u = (r, u')
      \<Longrightarrow> advances (\<lambda>m. True) u u'"
    by (rule advances_mono [OF annotate_field_advances]) simp_all
  have asks: "\<And>x u b x' u' m. annotate_field key_ok valid validate (collection_name t) x u
        = (Inr (b, x'), u') \<Longrightarrow> True \<notin> set (confirms u) \<Longrightarrow>
      \<not> b \<and> (m = MField x \<and> falsy (field_data_categories x) \<longrightarrow> Prompt m \<in> set (since u u'))"
    using annotate_field_asks by blast
  have "\<forall>x \<in> set (collection_fields t). \<forall>m. m = MField x \<and> falsy (field_data_categories x)
          \<longrightarrow> Prompt m \<in> set (since w w')"
    using adv asks f nq
    by (rule for_each_asks [where Q = "\<lambda>x m. m = MField x \<and> falsy (field_data_categories x)"])
  then show ?thesis
    using m by (auto simp: due_def)
qed


text \<open>The body of the collection loop.\<close>

lemma annotate_table_cases:
  assumes "annotate_table key_ok valid validate annotate_all t w = (r, w')"
  shows "(\<not> (annotate_all \<and> falsy (collection_data_categories t)) \<and>
          walk_fields key_ok valid validate t (echo (AnnotatingTable (collection_name t)) w)
            = (r, w'))
    \<or> (annotate_all \<and> falsy (collection_data_categories t) \<and>
        (\<exists>r1 w1. try_annotation key_ok valid validate (MCollection t)
             (echo (NoCategoriesTable (collection_name t))
                (echo (AnnotatingTable (collection_name t)) w)) = (r1, w1) \<and>
           ((\<exists>e. r1 = Inl e \<and> r = Inl e \<and> w' = w1)
            \<or> (r1 = Inr None \<and> r = Inr (True, t) \<and> w' = w1)
            \<or> (\<exists>cs. r1 = Inr (Some cs) \<and>
                  walk_fields key_ok valid validate
                    (t\<lparr>collection_data_categories := Some cs\<rparr>) w1 = (r, w')))))"
  using assms
  by (auto simp: annotate_table_def Let_def split: if_splits prod.splits sum.splits option.splits)

lemma annotate_table_advances:
  assumes "annotate_table key_ok valid validate annotate_all t w = (r, w')"
  shows "advances (\<lambda>m. m \<in> set (collection_members t) \<and> due annotate_all m) w w'"
proof -
  let ?Q = "\<lambda>m. m \<in> set (collection_members t) \<and> due annotate_all m"
  let ?w0 = "echo (AnnotatingTable (collection_name t)) w"
  let ?wn = "echo (NoCategoriesTable (collection_name t)) ?w0"
  have a0: "advances ?Q w ?w0" by (rule advances_echo) simp
  have a00: "advances ?Q ?w0 ?wn" by (rule advances_echo) simp
  have fields: "\<And>t1 u u' r. collection_fields t1 = collection_fields t \<Longrightarrow>
      walk_fields key_ok valid validate t1 u = (r, u') \<Longrightarrow> advances ?Q u u'"
  proof -
    fix t1 u u' r
    assume c: "collection_fields t1 = collection_fields t"
      and wf: "walk_fields key_ok valid validate t1 u = (r, u')"
    show "advances ?Q u u'"
      by (rule advances_mono [OF walk_fields_advances [OF wf, of annotate_all]])
         (auto simp: c collection_members_def)
  qed
  from annotate_table_cases [OF assms]
  consider (plain) "walk_fields key_ok valid validate t ?w0 = (r, w')"
    | (asked) r1 w1 where "annotate_all" "falsy (collection_data_categories t)"
        "try_annotation key_ok valid validate (MCollection t) ?wn = (r1, w1)"
        "w' = w1 \<or> (\<exists>cs. walk_fields key_ok valid validate
                     (t\<lparr>collection_data_categories := Some cs\<rparr>) w1 = (r, w'))"
    by blast
  then show ?thesis
  proof cases
    case plain
    have "advances ?Q ?w0 w'" by (rule fields [OF _ plain]) simp
    with a0 show ?thesis by (rule advances_trans)
  next
    case asked
    have a1: "advances ?Q ?wn w1"
      by (rule advances_mono [OF try_annotation_advances(1) [OF asked(3)]])
         (simp add: asked(1,2) collection_members_def due_def)
    have a000: "advances ?Q w ?wn"
      using a0 a00 by (rule advances_trans)
    have a01: "advances ?Q w w1"
      using a000 a1 by (rule advances_trans)
    show ?thesis
    proof (cases "w' = w1")
      case True
      then show ?thesis using a01 by simp
    next
      case False
      then obtain cs where wf: "walk_fields key_ok valid validate
          (t\<lparr>collection_data_categories := Some cs\<rparr>) w1 = (r, w')"
        using asked(4) by blast
      have "advances ?Q w1 w'" by (rule fields [OF _ wf]) simp
      with a01 show ?thesis by (rule advances_trans)
    qed
  qed
qed

lemma annotate_table_fills:
  assumes "annotate_table key_ok valid validate annotate_all t w = (Inr (b, t'), w')"
  shows "fills_collection annotate_all t t'"
proof -
  have refl: "list_all2 fills_field (collection_fields t) (collection_fields t)"
    by (simp add: list_all2_same fills_field_def)
  from annotate_table_cases [OF assms]
  consider (plain) "walk_fields key_ok valid validate t
        (echo (AnnotatingTable (collection_name t)) w) = (Inr (b, t'), w')"
    | (quit) "t' = t"
    | (asked) cs w1 where "annotate_all" "falsy (collection_data_categories t)"
        "walk_fields key_ok valid validate (t\<lparr>collection_data_categories := Some cs\<rparr>) w1
           = (Inr (b, t'), w')"
    by blast
  then show ?thesis
  proof cases
    case plain
    from walk_fields_fills(2,3) [OF plain] show ?thesis
      unfolding fills_collection_def
      by (metis (no_types, lifting) dataset_collection.select_convs(3)
          dataset_collection.surjective dataset_collection.update_convs(3,4))
  next
    case quit
    then show ?thesis using refl by (simp add: fills_collection_def)
  next
    case asked
    from walk_fields_fills(2,3) [OF asked(3)] asked(1,2) show ?thesis
      unfolding fills_collection_def
      by (metis (no_types, lifting) dataset_collection.select_convs(3,4)
          dataset_collection.surjective dataset_collection.update_convs(3,4))
  qed
qed

lemma advances_any: "advances Q w w' \<Longrightarrow> advances (\<lambda>m. True) w w'"
  by (rule advances_mono) simp_all

lemma annotate_table_asks:
  assumes run: "annotate_table key_ok valid validate annotate_all t w = (Inr (b, t'), w')"
    and nq: "True \<notin> set (confirms w)"
  shows "\<not> b"
    and "m \<in> set (collection_members t) \<Longrightarrow> due annotate_all m \<Longrightarrow>
         Prompt m \<in> set (since w w')"
proof -
  let ?u = "echo (AnnotatingTable (collection_name t)) w"
  let ?v = "echo (NoCategoriesTable (collection_name t)) ?u"
  have au: "advances (\<lambda>m. True) w ?u" by (rule advances_echo) simp
  have av: "advances (\<lambda>m. True) ?u ?v" by (rule advances_echo) simp
  have awv: "advances (\<lambda>m. True) w ?v" using au av by (rule advances_trans)
  have nqu: "True \<notin> set (confirms ?u)" using nq by (simp add: echo_def)
  have nqv: "True \<notin> set (confirms ?v)" using nq by (simp add: echo_def)
  from annotate_table_cases [OF run]
  consider (plain) "\<not> (annotate_all \<and> falsy (collection_data_categories t))"
      "walk_fields key_ok valid validate t ?u = (Inr (b, t'), w')"
    | (asked) r1 w1 where "annotate_all" "falsy (collection_data_categories t)"
        "try_annotation key_ok valid validate (MCollection t) ?v = (r1, w1)"
        "(r1 = Inr None) \<or> (\<exists>cs. r1 = Inr (Some cs) \<and> walk_fields key_ok valid validate
                     (t\<lparr>collection_data_categories := Some cs\<rparr>) w1 = (Inr (b, t'), w'))"
    by blast
  then have "\<not> b \<and> (m \<in> set (collection_members t) \<longrightarrow> due annotate_all m \<longrightarrow>
         Prompt m \<in> set (since w w'))"
  proof cases
    case plain
    have nb: "\<not> b" by (rule walk_fields_fills(1) [OF plain(2)])
    have a1: "advances (\<lambda>m. True) ?u w'"
      by (rule advances_any [OF walk_fields_advances [OF plain(2), of annotate_all]])
    have "Prompt m \<in> set (since w w')"
      if m: "m \<in> set (collection_members t)" and d: "due annotate_all m"
    proof -
      have "m \<noteq> MCollection t" using plain(1) d by (auto simp: due_def)
      then have "m \<in> MField ` set (collection_fields t)"
        using m by (auto simp: collection_members_def)
      then have "Prompt m \<in> set (since ?u w')"
        using walk_fields_asks [OF plain(2) nqu] d by blast
      then show ?thesis by (rule since_second [OF au a1])
    qed
    with nb show ?thesis by blast
  next
    case asked
    have "r1 \<noteq> Inr None"
      using try_annotation_advances(3) [OF asked(3)] nqv by blast
    then obtain cs where wf: "walk_fields key_ok valid validate
        (t\<lparr>collection_data_categories := Some cs\<rparr>) w1 = (Inr (b, t'), w')"
      using asked(4) by blast
    have nb: "\<not> b" by (rule walk_fields_fills(1) [OF wf])
    have a1: "advances (\<lambda>m. True) ?v w1"
      by (rule advances_any [OF try_annotation_advances(1) [OF asked(3)]])
    have a2: "advances (\<lambda>m. True) w1 w'"
      by (rule advances_any [OF walk_fields_advances [OF wf, of annotate_all]])
    have aw1: "advances (\<lambda>m. True) w w1" using awv a1 by (rule advances_trans)
    have nq1: "True \<notin> set (confirms w1)" by (rule advances_no_quit [OF a1 nqv])
    have "Prompt m \<in> set (since w w')"
      if m: "m \<in> set (collection_members t)" and d: "due annotate_all m"
    proof (cases "m = MCollection t")
      case True
      have "Prompt m \<in> set (since ?v w1)"
        using try_annotation_advances(2) [OF asked(3)] True by simp
      then have "Prompt m \<in> set (since w w1)" by (rule since_second [OF awv a1])
      then show ?thesis by (rule since_first [OF aw1 a2])
    next
      case False
      then have "m \<in> MField ` set (collection_fields (t\<lparr>collection_data_categories := Some cs\<rparr>))"
        using m by (auto simp: collection_members_def)
      then have "Prompt m \<in> set (since w1 w')"
        using walk_fields_asks [OF wf nq1] d by blast
      then show ?thesis by (rule since_second [OF aw1 a2])
    qed
    with nb show ?thesis by blast
  qed
  then show "\<not> b"
    and "m \<in> set (collection_members t) \<Longrightarrow> due annotate_all m \<Longrightarrow>
         Prompt m \<in> set (since w w')"
    by blast+
qed

text \<open>The collection loop of a dataset.\<close>

lemma walk_tables_cases:
  assumes "walk_tables key_ok valid validate annotate_all d w = (r, w')"
  shows "\<exists>r1. for_each (annotate_table key_ok valid validate annotate_all)
                 (dataset_collections d) w = (r1, w')
          \<and> ((\<exists>e. r1 = Inl e \<and> r = Inl e)
               \<or> (\<exists>ts. r1 = Inr ts \<and> r = Inr (False, d\<lparr>dataset_collections := ts\<rparr>)))"
  using assms by (auto simp: walk_tables_def split: prod.splits sum.splits)

lemma walk_tables_advances:
  assumes "walk_tables key_ok valid validate annotate_all d w = (r, w')"
  shows "advances (\<lambda>m. (\<exists>t \<in> set (dataset_collections d). m \<in> set (collection_members t))
                      \<and> due annotate_all m) w w'"
proof -
  from walk_tables_cases [OF assms] obtain r1 where
    f: "for_each (annotate_table key_ok valid validate annotate_all)
          (dataset_collections d) w = (r1, w')"
    by blast
  have "advances (\<lambda>m. \<exists>t \<in> set (dataset_collections d).
                    m \<in> set (collection_members t) \<and> due annotate_all m) w w'"
    using annotate_table_advances f by (rule for_each_advances)
  then show ?thesis
    by (rule advances_mono) auto
qed

lemma fills_collection_refl: "fills_collection annotate_all t t"
  by (simp add: fills_collection_def fills_field_def list_all2_same)

lemma walk_tables_fills:
  assumes "walk_tables key_ok valid validate annotate_all d w = (Inr (b, d'), w')"
  shows "\<not> b" and "d' = d\<lparr>dataset_collections := dataset_collections d'\<rparr>"
    and "list_all2 (fills_collection annotate_all) (dataset_collections d) (dataset_collections d')"
proof -
  from walk_tables_cases [OF assms] obtain ts where
    f: "for_each (annotate_table key_ok valid validate annotate_all)
          (dataset_collections d) w = (Inr ts, w')"
    and d': "b = False" "d' = d\<lparr>dataset_collections := ts\<rparr>"
    by auto
  show "\<not> b" using d' by simp
  show "d' = d\<lparr>dataset_collections := dataset_collections d'\<rparr>" using d' by simp
  have "list_all2 (fills_collection annotate_all) (dataset_collections d) ts"
  proof (rule for_each_rel [OF _ _ f])
    show "\<And>x u b x' u'. annotate_table key_ok valid validate annotate_all x u
             = (Inr (b, x'), u') \<Longrightarrow> fills_collection annotate_all x x'"
      by (rule annotate_table_fills)
    show "\<And>x. fills_collection annotate_all x x" by (rule fills_collection_refl)
  qed
  then show "list_all2 (fills_collection annotate_all) (dataset_collections d)
               (dataset_collections d')"
    using d' by simp
qed

lemma walk_tables_asks:
  assumes run: "walk_tables key_ok valid validate annotate_all d w = (Inr (b, d'), w')"
    and nq: "True \<notin> set (confirms w)"
    and m: "t \<in> set (dataset_collections d)" "m \<in> set (collection_members t)"
      "due annotate_all m"
  shows "Prompt m \<in> set (since w w')"
proof -
  from walk_tables_cases [OF run] obtain ts where
    f: "for_each (annotate_table key_ok valid validate annotate_all)
          (dataset_collections d) w = (Inr ts, w')"
    by auto
  have adv: "\<And>x u r u'. annotate_table key_ok valid validate annotate_all x u = (r, u')
      \<Longrightarrow> advances (\<lambda>m. True) u u'"
    by (rule advances_any [OF annotate_table_advances])
  have asks: "\<And>x u b x' u' m. annotate_table key_ok valid validate annotate_all x u
        = (Inr (b, x'), u') \<Longrightarrow> True \<notin> set (confirms u) \<Longrightarrow>
      \<not> b \<and> (m \<in> set (collection_members x) \<and> due annotate_all m
                \<longrightarrow> Prompt m \<in> set (since u u'))"
    using annotate_table_asks by blast
  have "\<forall>x \<in> set (dataset_collections d). \<forall>m.
          m \<in> set (collection_members x) \<and> due annotate_all m
          \<longrightarrow> Prompt m \<in> set (since w w')"
    using adv asks f nq
    by (rule for_each_asks
          [where Q = "\<lambda>x m. m \<in> set (collection_members x) \<and> due annotate_all m"])
  then show ?thesis
    using m by blast
qed

text \<open>The body of the dataset loop.\<close>

lemma annotate_current_dataset_cases:
  assumes "annotate_current_dataset key_ok valid validate annotate_all d w = (r, w')"
  shows "(\<not> (annotate_all \<and> falsy (dataset_data_categories d)) \<and>
          walk_tables key_ok valid validate annotate_all d
            (echo (AnnotatingDataset (dataset_name d)) w) = (r, w'))
    \<or> (annotate_all \<and> falsy (dataset_data_categories d) \<and>
        (\<exists>r1 w1. try_annotation key_ok valid validate (MDataset d)
             (echo (NoCategoriesDatabase (dataset_name d))
                (echo (AnnotatingDataset (dataset_name d)) w)) = (r1, w1) \<and>
           ((\<exists>e. r1 = Inl e \<and> r = Inl e \<and> w' = w1)
            \<or> (r1 = Inr None \<and> r = Inr (True, d) \<and> w' = w1)
            \<or> (\<exists>cs. r1 = Inr (Some cs) \<and>
                  walk_tables key_ok valid validate annotate_all
                    (d\<lparr>dataset_data_categories := Some cs\<rparr>) w1 = (r, w')))))"
  using assms
  by (auto simp: annotate_current_dataset_def Let_def
      split: if_splits prod.splits sum.splits option.splits)

lemma annotate_current_dataset_advances:
  assumes "annotate_current_dataset key_ok valid validate annotate_all d w = (r, w')"
  shows "advances (\<lambda>m. m \<in> set (dataset_members d) \<and> due annotate_all m) w w'"
proof -
  let ?Q = "\<lambda>m. m \<in> set (dataset_members d) \<and> due annotate_all m"
  let ?u = "echo (AnnotatingDataset (dataset_name d)) w"
  let ?v = "echo (NoCategoriesDatabase (dataset_name d)) ?u"
  have au: "advances ?Q w ?u" by (rule advances_echo) simp
  have av: "advances ?Q ?u ?v" by (rule advances_echo) simp
  have tables: "\<And>d1 u u' r. dataset_collections d1 = dataset_collections d \<Longrightarrow>
      walk_tables key_ok valid validate annotate_all d1 u = (r, u') \<Longrightarrow> advances ?Q u u'"
  proof -
    fix d1 u u' r
    assume c: "dataset_collections d1 = dataset_collections d"
      and wt: "walk_tables key_ok valid validate annotate_all d1 u = (r, u')"
    show "advances ?Q u u'"
      by (rule advances_mono [OF walk_tables_advances [OF wt]])
         (auto simp: c dataset_members_def)
  qed
  from annotate_current_dataset_cases [OF assms]
  consider (plain) "walk_tables key_ok valid validate annotate_all d ?u = (r, w')"
    | (asked) r1 w1 where "annotate_all" "falsy (dataset_data_categories d)"
        "try_annotation key_ok valid validate (MDataset d) ?v = (r1, w1)"
        "w' = w1 \<or> (\<exists>cs. walk_tables key_ok valid validate annotate_all
                     (d\<lparr>dataset_data_categories := Some cs\<rparr>) w1 = (r, w'))"
    by blast
  then show ?thesis
  proof cases
    case plain
    have "advances ?Q ?u w'" by (rule tables [OF _ plain]) simp
    with au show ?thesis by (rule advances_trans)
  next
    case asked
    have a1: "advances ?Q ?v w1"
      by (rule advances_mono [OF try_annotation_advances(1) [OF asked(3)]])
         (simp add: asked(1,2) dataset_members_def due_def)
    have auv: "advances ?Q w ?v"
      using au av by (rule advances_trans)
    have a01: "advances ?Q w w1"
      using auv a1 by (rule advances_trans)
    show ?thesis
    proof (cases "w' = w1")
      case True
      then show ?thesis using a01 by simp
    next
      case False
      then obtain cs where wt: "walk_tables key_ok valid validate annotate_all
          (d\<lparr>dataset_data_categories := Some cs\<rparr>) w1 = (r, w')"
        using asked(4) by blast
      have "advances ?Q w1 w'" by (rule tables [OF _ wt]) simp
      with a01 show ?thesis by (rule advances_trans)
    qed
  qed
qed

lemma fills_dataset_refl: "fills_dataset annotate_all d d"
  by (simp add: fills_dataset_def fills_collection_refl list_all2_same)

lemma annotate_current_dataset_fills:
  assumes "annotate_current_dataset key_ok valid validate annotate_all d w = (Inr (b, d'), w')"
  shows "fills_dataset annotate_all d d'"
proof -
  from annotate_current_dataset_cases [OF assms]
  consider (plain) "walk_tables key_ok valid validate annotate_all d
        (echo (AnnotatingDataset (dataset_name d)) w) = (Inr (b, d'), w')"
    | (quit) "d' = d"
    | (asked) cs w1 where "annotate_all" "falsy (dataset_data_categories d)"
        "walk_tables key_ok valid validate annotate_all
           (d\<lparr>dataset_data_categories := Some cs\<rparr>) w1 = (Inr (b, d'), w')"
    by blast
  then show ?thesis
  proof cases
    case plain
    from walk_tables_fills(2,3) [OF plain] show ?thesis
      unfolding fills_dataset_def
      by (metis (no_types, lifting) dataset.select_convs(4)
          dataset.surjective dataset.update_convs(4,5))
  next
    case quit
    then show ?thesis by (simp add: fills_dataset_refl)
  next
    case asked
    from walk_tables_fills(2,3) [OF asked(3)] asked(1,2) show ?thesis
      unfolding fills_dataset_def
      by (metis (no_types, lifting) dataset.select_convs(4,5)
          dataset.surjective dataset.update_convs(4,5))
  qed
qed

lemma annotate_current_dataset_asks:
  assumes run: "annotate_current_dataset key_ok valid validate annotate_all d w
                  = (Inr (b, d'), w')"
    and nq: "True \<notin> set (confirms w)"
  shows "\<not> b"
    and "m \<in> set (dataset_members d) \<Longrightarrow> due annotate_all m \<Longrightarrow>
         Prompt m \<in> set (since w w')"
proof -
  let ?u = "echo (AnnotatingDataset (dataset_name d)) w"
  let ?v = "echo (NoCategoriesDatabase (dataset_name d)) ?u"
  have au: "advances (\<lambda>m. True) w ?u" by (rule advances_echo) simp
  have av: "advances (\<lambda>m. True) ?u ?v" by (rule advances_echo) simp
  have awv: "advances (\<lambda>m. True) w ?v" using au av by (rule advances_trans)
  have nqu: "True \<notin> set (confirms ?u)" using nq by (simp add: echo_def)
  have nqv: "True \<notin> set (confirms ?v)" using nq by (simp add: echo_def)
  from annotate_current_dataset_cases [OF run]
  consider (plain) "\<not> (annotate_all \<and> falsy (dataset_data_categories d))"
      "walk_tables key_ok valid validate annotate_all d ?u = (Inr (b, d'), w')"
    | (asked) r1 w1 where "annotate_all" "falsy (dataset_data_categories d)"
        "try_annotation key_ok valid validate (MDataset d) ?v = (r1, w1)"
        "(r1 = Inr None) \<or> (\<exists>cs. r1 = Inr (Some cs) \<and>
            walk_tables key_ok valid validate annotate_all
              (d\<lparr>dataset_data_categories := Some cs\<rparr>) w1 = (Inr (b, d'), w'))"
    by blast
  then have "\<not> b \<and> (m \<in> set (dataset_members d) \<longrightarrow> due annotate_all m \<longrightarrow>
         Prompt m \<in> set (since w w'))"
  proof cases
    case plain
    have nb: "\<not> b" by (rule walk_tables_fills(1) [OF plain(2)])
    have a1: "advances (\<lambda>m. True) ?u w'"
      by (rule advances_any [OF walk_tables_advances [OF plain(2)]])
    have "Prompt m \<in> set (since w w')"
      if m: "m \<in> set (dataset_members d)" and d: "due annotate_all m"
    proof -
      have "m \<noteq> MDataset d" using plain(1) d by (auto simp: due_def)
      then obtain t where "t \<in> set (dataset_collections d)" "m \<in> set (collection_members t)"
        using m by (auto simp: dataset_members_def)
      then have "Prompt m \<in> set (since ?u w')"
        using walk_tables_asks [OF plain(2) nqu] d by blast
      then show ?thesis by (rule since_second [OF au a1])
    qed
    with nb show ?thesis by blast
  next
    case asked
    have "r1 \<noteq> Inr None"
      using try_annotation_advances(3) [OF asked(3)] nqv by blast
    then obtain cs where wt: "walk_tables key_ok valid validate annotate_all
        (d\<lparr>dataset_data_categories := Some cs\<rparr>) w1 = (Inr (b, d'), w')"
      using asked(4) by blast
    have nb: "\<not> b" by (rule walk_tables_fills(1) [OF wt])
    have a1: "advances (\<lambda>m. True) ?v w1"
      by (rule advances_any [OF try_annotation_advances(1) [OF asked(3)]])
    have a2: "advances (\<lambda>m. True) w1 w'"
      by (rule advances_any [OF walk_tables_advances [OF wt]])
    have aw1: "advances (\<lambda>m. True) w w1" using awv a1 by (rule advances_trans)
    have nq1: "True \<notin> set (confirms w1)" by (rule advances_no_quit [OF a1 nqv])
    have "Prompt m \<in> set (since w w')"
      if m: "m \<in> set (dataset_members d)" and d: "due annotate_all m"
    proof (cases "m = MDataset d")
      case True
      have "Prompt m \<in> set (since ?v w1)"
        using try_annotation_advances(2) [OF asked(3)] True by simp
      then have "Prompt m \<in> set (since w w1)" by (rule since_second [OF awv a1])
      then show ?thesis by (rule since_first [OF aw1 a2])
    next
      case False
      then obtain t where
        "t \<in> set (dataset_collections (d\<lparr>dataset_data_categories := Some cs\<rparr>))"
        "m \<in> set (collection_members t)"
        using m by (auto simp: dataset_members_def)
      then have "Prompt m \<in> set (since w1 w')"
        using walk_tables_asks [OF wt nq1] d by blast
      then show ?thesis by (rule since_second [OF aw1 a2])
    qed
    with nb show ?thesis by blast
  qed
  then show "\<not> b"
    and "m \<in> set (dataset_members d) \<Longrightarrow> due annotate_all m \<Longrightarrow>
         Prompt m \<in> set (since w w')"
    by blast+
qed

text \<open>The dataset loop.\<close>

lemma walk_datasets_cases:
  assumes "walk_datasets key_ok valid validate annotate_all cur (d # ds) w = (r, w')"
  shows "\<exists>r1 w1. annotate_current_dataset key_ok valid validate annotate_all
                    (parse_dataset d) w = (r1, w1)
     \<and> ((\<exists>e. r1 = Inl e \<and> r = Inl e \<and> w' = w1)
         \<or> (\<exists>d1. r1 = Inr (True, d1) \<and> r = Inr (True, Some d1) \<and> w' = w1)
         \<or> (\<exists>d1. r1 = Inr (False, d1) \<and>
               walk_datasets key_ok valid validate annotate_all (Some d1) ds w1 = (r, w')))"
  using assms by (auto split: prod.splits sum.splits if_splits)

lemma walk_datasets_advances:
  "walk_datasets key_ok valid validate annotate_all cur ds w = (r, w') \<Longrightarrow>
   advances (\<lambda>m. (\<exists>d \<in> set ds. m \<in> set (dataset_members (parse_dataset d)))
                 \<and> due annotate_all m) w w'"
proof (induction ds arbitrary: cur w)
  case Nil
  then show ?case by (simp add: advances_refl)
next
  case (Cons d ds)
  let ?Q = "\<lambda>m. (\<exists>x \<in> set (d # ds). m \<in> set (dataset_members (parse_dataset x)))
                 \<and> due annotate_all m"
  from walk_datasets_cases [OF Cons.prems] obtain r1 w1 where
    b: "annotate_current_dataset key_ok valid validate annotate_all (parse_dataset d) w
          = (r1, w1)"
    and rest: "w' = w1 \<or> (\<exists>d1. walk_datasets key_ok valid validate annotate_all
                                (Some d1) ds w1 = (r, w'))"
    by blast
  have a1: "advances ?Q w w1"
    by (rule advances_mono [OF annotate_current_dataset_advances [OF b]]) simp
  show ?case
  proof (cases "w' = w1")
    case True
    then show ?thesis using a1 by simp
  next
    case False
    then obtain d1 where "walk_datasets key_ok valid validate annotate_all
        (Some d1) ds w1 = (r, w')"
      using rest by blast
    then have "advances (\<lambda>m. (\<exists>x \<in> set ds. m \<in> set (dataset_members (parse_dataset x)))
                          \<and> due annotate_all m) w1 w'"
      by (rule Cons.IH)
    then have "advances ?Q w1 w'"
      by (rule advances_mono) auto
    with a1 show ?thesis by (rule advances_trans)
  qed
qed

lemma walk_datasets_fills:
  "walk_datasets key_ok valid validate annotate_all cur ds w = (Inr (False, cur'), w') \<Longrightarrow>
   (ds = [] \<and> cur' = cur)
   \<or> (ds \<noteq> [] \<and> (\<exists>d'. cur' = Some d'
                      \<and> fills_dataset annotate_all (parse_dataset (last ds)) d'))"
proof (induction ds arbitrary: cur w)
  case Nil
  then show ?case by simp
next
  case (Cons d ds)
  from walk_datasets_cases [OF Cons.prems] obtain d1 w1 where
    b: "annotate_current_dataset key_ok valid validate annotate_all (parse_dataset d) w
          = (Inr (False, d1), w1)"
    and rest: "walk_datasets key_ok valid validate annotate_all (Some d1) ds w1
                 = (Inr (False, cur'), w')"
    by auto
  have f: "fills_dataset annotate_all (parse_dataset d) d1"
    by (rule annotate_current_dataset_fills [OF b])
  from Cons.IH [OF rest] show ?case
    using f by auto
qed

lemma walk_datasets_asks:
  "walk_datasets key_ok valid validate annotate_all cur ds w = (Inr (b, cur'), w') \<Longrightarrow>
   True \<notin> set (confirms w) \<Longrightarrow>
   \<not> b \<and> (\<forall>d \<in> set ds. \<forall>m \<in> set (dataset_members (parse_dataset d)).
            due annotate_all m \<longrightarrow> Prompt m \<in> set (since w w'))"
proof (induction ds arbitrary: cur w)
  case Nil
  then show ?case by simp
next
  case (Cons d ds)
  from walk_datasets_cases [OF Cons.prems(1)] obtain r1 w1 where
    b: "annotate_current_dataset key_ok valid validate annotate_all (parse_dataset d) w
          = (r1, w1)"
    and rest: "(\<exists>d1. r1 = Inr (True, d1))
       \<or> (\<exists>d1. r1 = Inr (False, d1) \<and>
             walk_datasets key_ok valid validate annotate_all (Some d1) ds w1
               = (Inr (b, cur'), w'))"
    by auto
  have "\<not> (\<exists>d1. r1 = Inr (True, d1))"
    using annotate_current_dataset_asks(1) b Cons.prems(2) by blast
  then obtain d1 where b1: "annotate_current_dataset key_ok valid validate annotate_all
        (parse_dataset d) w = (Inr (False, d1), w1)"
    and wd: "walk_datasets key_ok valid validate annotate_all (Some d1) ds w1
               = (Inr (b, cur'), w')"
    using rest b by auto
  have a1: "advances (\<lambda>m. True) w w1"
    by (rule advances_any [OF annotate_current_dataset_advances [OF b1]])
  have a2: "advances (\<lambda>m. True) w1 w'"
    by (rule advances_any [OF walk_datasets_advances [OF wd]])
  have nq1: "True \<notin> set (confirms w1)"
    by (rule advances_no_quit [OF a1 Cons.prems(2)])
  have IH: "\<not> b \<and> (\<forall>x \<in> set ds. \<forall>m \<in> set (dataset_members (parse_dataset x)).
            due annotate_all m \<longrightarrow> Prompt m \<in> set (since w1 w'))"
    by (rule Cons.IH [OF wd nq1])
  have "Prompt m \<in> set (since w w')"
    if x: "x \<in> set (d # ds)" and m: "m \<in> set (dataset_members (parse_dataset x))"
      and du: "due annotate_all m"
    for x m
  proof (cases "x = d")
    case True
    then have "Prompt m \<in> set (since w w1)"
      using annotate_current_dataset_asks(2) [OF b1 Cons.prems(2)] m du by blast
    then show ?thesis by (rule since_first [OF a1 a2])
  next
    case False
    then have "x \<in> set ds" using x by simp
    then have "Prompt m \<in> set (since w1 w')" using IH m du by blast
    then show ?thesis by (rule since_second [OF a1 a2])
  qed
  then show ?case using IH by blast
qed

lemma annotate_dataset_cases:
  assumes "annotate_dataset key_ok valid datasets resource_type annotate_all validate w = (r, w')"
  shows "\<exists>r1 w1. walk_datasets key_ok valid validate annotate_all None datasets
                    (echo (EchoVisualizer resource_type) w) = (r1, w1)
     \<and> ((\<exists>e. r1 = Inl e \<and> r = Inl e \<and> w' = w1)
         \<or> (\<exists>cur. r1 = Inr (True, cur) \<and> r = Inr () \<and> w' = write_manifest [] w1)
         \<or> (r1 = Inr (False, None) \<and> r = Inl UnboundLocalError \<and> w' = w1)
         \<or> (\<exists>d'. r1 = Inr (False, Some d') \<and> r = Inr () \<and> w' = write_manifest [d'] w1))"
  using assms
  by (auto simp: annotate_dataset_def split: prod.splits sum.splits if_splits option.splits)

lemma since_write_manifest: "since w (write_manifest out w1) = since w w1"
  by (simp add: since_def write_manifest_def)

text \<open>
  C7. In every run of \<open>annotate_dataset\<close> on a manifest that the model classes accept:
  each prompt is for an entity of a dataset of the manifest, as the constructor holds it,
  whose label set is empty or absent, and, unless annotate-all is on, for a field; when
  the operator never confirms a quit and the run returns, every field without labels has
  been prompted for whether annotate-all is on or not, and with annotate-all on so has
  every dataset and collection without labels; and the dataset written, like the dataset
  that any pass of the loop body leaves, differs from the one walked only in label sets
  that were empty, those of datasets and collections only under annotate-all.
\<close>

theorem annotation_fills_empty_label_sets_only:
  assumes "annotate_dataset key_ok valid datasets resource_type annotate_all validate w = (r, w')"
    and "list_all (accepted_dataset key_ok) datasets"
  shows "(\<forall>m. Prompt m \<in> set (since w w') \<longrightarrow>
            (\<exists>d \<in> set datasets. m \<in> set (dataset_members (parse_dataset d)))
            \<and> falsy (member_data_categories m) \<and> (annotate_all \<or> is_field m))
    \<and> (True \<notin> set (confirms w) \<longrightarrow> r = Inr () \<longrightarrow>
          (\<forall>d \<in> set datasets. \<forall>m \<in> set (dataset_members (parse_dataset d)).
             falsy (member_data_categories m) \<and> (annotate_all \<or> is_field m) \<longrightarrow>
             Prompt m \<in> set (since w w')))
    \<and> (r = Inr () \<longrightarrow>
          (\<exists>out. written w' = written w @ [out]
             \<and> (\<forall>d' \<in> set out. datasets \<noteq> []
                   \<and> fills_dataset annotate_all (parse_dataset (last datasets)) d')))
    \<and> (\<forall>d u b d' u'.
          annotate_current_dataset key_ok valid validate annotate_all d u = (Inr (b, d'), u') \<longrightarrow>
          fills_dataset annotate_all d d')"
proof -
  let ?u = "echo (EchoVisualizer resource_type) w"
  from annotate_dataset_cases [OF assms(1)] obtain r1 w1 where
    wd: "walk_datasets key_ok valid validate annotate_all None datasets ?u = (r1, w1)"
    and out: "(\<exists>e. r1 = Inl e \<and> r = Inl e \<and> w' = w1)
         \<or> (\<exists>cur. r1 = Inr (True, cur) \<and> r = Inr () \<and> w' = write_manifest [] w1)
         \<or> (r1 = Inr (False, None) \<and> r = Inl UnboundLocalError \<and> w' = w1)
         \<or> (\<exists>d'. r1 = Inr (False, Some d') \<and> r = Inr () \<and> w' = write_manifest [d'] w1)"
    by blast
  let ?Q = "\<lambda>m. (\<exists>d \<in> set datasets. m \<in> set (dataset_members (parse_dataset d)))
                 \<and> due annotate_all m"
  have au: "advances ?Q w ?u" by (rule advances_echo) simp
  have a1: "advances ?Q ?u w1" by (rule walk_datasets_advances [OF wd])
  have a: "advances ?Q w w1" using au a1 by (rule advances_trans)
  have s: "since w w' = since w w1"
    using out by (auto simp: since_write_manifest)
  have wr: "written w1 = written w"
    using a by (simp add: advances_def)
  have c1: "\<forall>m. Prompt m \<in> set (since w w') \<longrightarrow>
            (\<exists>d \<in> set datasets. m \<in> set (dataset_members (parse_dataset d)))
            \<and> falsy (member_data_categories m) \<and> (annotate_all \<or> is_field m)"
    using a unfolding s by (simp add: advances_def due_def)
  have c2: "True \<notin> set (confirms w) \<longrightarrow> r = Inr () \<longrightarrow>
          (\<forall>d \<in> set datasets. \<forall>m \<in> set (dataset_members (parse_dataset d)).
             falsy (member_data_categories m) \<and> (annotate_all \<or> is_field m) \<longrightarrow>
             Prompt m \<in> set (since w w'))"
  proof (intro impI ballI)
    fix d m
    assume nq: "True \<notin> set (confirms w)" and r: "r = Inr ()"
      and d: "d \<in> set datasets" and m: "m \<in> set (dataset_members (parse_dataset d))"
      and du: "falsy (member_data_categories m) \<and> (annotate_all \<or> is_field m)"
    from out r obtain b cur where r1: "r1 = Inr (b, cur)" by auto
    have nqu: "True \<notin> set (confirms ?u)" using nq by (simp add: echo_def)
    have "Prompt m \<in> set (since ?u w1)"
      using walk_datasets_asks [OF wd [unfolded r1] nqu] d m du by (simp add: due_def)
    then have "Prompt m \<in> set (since w w1)" by (rule since_second [OF au a1])
    then show "Prompt m \<in> set (since w w')" using s by simp
  qed
  have c3: "r = Inr () \<longrightarrow>
          (\<exists>out. written w' = written w @ [out]
             \<and> (\<forall>d' \<in> set out. datasets \<noteq> []
                   \<and> fills_dataset annotate_all (parse_dataset (last datasets)) d'))"
  proof
    assume r: "r = Inr ()"
    from out r consider (broke) "w' = write_manifest [] w1"
      | (finished) d' where "r1 = Inr (False, Some d')" "w' = write_manifest [d'] w1"
      by auto
    then show "\<exists>out. written w' = written w @ [out]
             \<and> (\<forall>d' \<in> set out. datasets \<noteq> []
                   \<and> fills_dataset annotate_all (parse_dataset (last datasets)) d')"
    proof cases
      case broke
      then have "written w' = written w @ [[]]" using wr by (simp add: write_manifest_def)
      then show ?thesis by simp
    next
      case finished
      have f: "datasets \<noteq> [] \<and> fills_dataset annotate_all (parse_dataset (last datasets)) d'"
        using walk_datasets_fills [OF wd [unfolded finished(1)]] by auto
      have "written w' = written w @ [[d']]"
        using finished(2) wr by (simp add: write_manifest_def)
      with f show ?thesis by simp
    qed
  qed
  have c4: "\<forall>d u b d' u'.
          annotate_current_dataset key_ok valid validate annotate_all d u = (Inr (b, d'), u') \<longrightarrow>
          fills_dataset annotate_all d d'"
    using annotate_current_dataset_fills by blast
  from c1 c2 c3 c4 show ?thesis by blast
qed

theorem annotation_fills_empty_label_sets_only_witness:
  "fst (annotate_dataset fides_key_syntax [''user''] partly_labelled ''data_category'' False True
          (operator [''user''] [])) = Inr ()
   \<and> filter is_interaction
        (since (operator [''user''] [])
           (snd (annotate_dataset fides_key_syntax [''user''] partly_labelled ''data_category''
                   False True (operator [''user''] []))))
      = [Prompt (MField (unlabelled_field ''email''))]
   \<and> map (map dataset_data_categories)
        (written (snd (annotate_dataset fides_key_syntax [''user''] partly_labelled
                         ''data_category'' False True (operator [''user''] []))))
      = [[Some [''system'']]]
   \<and> map (map (map (\<lambda>t. (collection_data_categories t,
                          map (\<lambda>f. (field_name f, field_data_categories f))
                            (collection_fields t)))
               \<circ> dataset_collections))
        (written (snd (annotate_dataset fides_key_syntax [''user''] partly_labelled
                         ''data_category'' False True (operator [''user''] []))))
      = [[[(None, [(''email'', Some [''user'']), (''id'', Some [''user.id''])])]]]"
  using annotation_fills_empty_label_sets_only
    [where key_ok = fides_key_syntax and valid = "[''user'']" and datasets = partly_labelled
       and resource_type = "''data_category''" and annotate_all = False and validate = True
       and w = "operator [''user''] []", OF surjective_pairing]
  by (simp add: walk_defs fixture_defs partly_labelled_def since_def accepted_dataset_def
      accepted_collection_def labels_ok_def fides_key_syntax_def fides_key_char_def)

end
